theory Spec2Isabelle
  imports Main "HOL-Library.AList" "HOL-Library.Multiset"
begin

section \<open>Data model\<close>

text \<open>
  A path is a Python \<open>str\<close>. A file record is the inner dictionary that
  \<open>collect_file_info\<close> builds, with the keys \<open>'name'\<close>, \<open>'hash'\<close>, \<open>'size'\<close> and
  \<open>'modified_time'\<close>. The field \<open>fsize\<close> is the key \<open>'size'\<close>; the modification time is kept
  as an integer time stamp.
\<close>

type_synonym path = string

record file_info =
  name :: string
  hash :: string
  fsize :: nat
  modified_time :: int

text \<open>
  \<open>file_info_dict\<close> is a Python \<open>dict\<close> from path to record. A Python dictionary iterates in
  insertion order, and the order decides which path \<open>find_duplicates_from_info\<close> sees first,
  so the dictionary is an association list in insertion order. A well-formed dictionary has
  distinct keys. The assignment \<open>d[k] = v\<close> is \<open>AList.update k v d\<close>: it replaces the value in
  place when the key is present and appends the entry otherwise. The test \<open>k in d\<close> is
  \<open>k \<in> set (map fst d)\<close> and \<open>len(d)\<close> is \<open>length d\<close>.
\<close>

type_synonym file_info_dict = "(path \<times> file_info) list"

definition well_formed :: "file_info_dict \<Rightarrow> bool" where
  "well_formed d = distinct (map fst d)"

section \<open>Strings and paths\<close>

text \<open>
  A character is read as a code point below 256. \<open>str.strip()\<close> removes the characters for
  which \<open>str.isspace\<close> holds from both ends; below 256 these are 9 to 13, 28 to 32, 133 and
  160. \<open>str.lower()\<close> maps \<open>A\<close> to \<open>Z\<close> and the Latin-1 capitals (192 to 222, without 215)
  to the character 32 places further on.
\<close>

definition py_isspace :: "char \<Rightarrow> bool" where
  "py_isspace c = (let n = (of_char c :: nat) in
     (9 \<le> n \<and> n \<le> 13) \<or> (28 \<le> n \<and> n \<le> 32) \<or> n = 133 \<or> n = 160)"

definition strip :: "string \<Rightarrow> string" where
  "strip s = rev (dropWhile py_isspace (rev (dropWhile py_isspace s)))"

definition lower_char :: "char \<Rightarrow> char" where
  "lower_char c = (let n = (of_char c :: nat) in
     if (65 \<le> n \<and> n \<le> 90) \<or> (192 \<le> n \<and> n \<le> 222 \<and> n \<noteq> 215)
     then char_of (n + 32) else c)"

definition lower :: "string \<Rightarrow> string" where
  "lower s = map lower_char s"

definition startswith :: "string \<Rightarrow> string \<Rightarrow> bool" where
  "startswith s prefix = (take (length prefix) s = prefix)"

text \<open>\<open>os.path.join\<close> and \<open>os.path.basename\<close> of \<open>posixpath\<close>.\<close>

definition os_path_join :: "path \<Rightarrow> path \<Rightarrow> path" where
  "os_path_join a b =
     (if startswith b ''/'' then b
      else if a = [] \<or> last a = CHR ''/'' then a @ b
      else a @ ''/'' @ b)"

definition os_path_basename :: "path \<Rightarrow> string" where
  "os_path_basename p = rev (takeWhile (\<lambda>c. c \<noteq> CHR ''/'') (rev p))"

text \<open>\<open>shutil._basename\<close> drops trailing separators first.\<close>

definition shutil_basename :: "path \<Rightarrow> string" where
  "shutil_basename p = os_path_basename (rev (dropWhile (\<lambda>c. c = CHR ''/'') (rev p)))"

section \<open>The environment of the program\<close>

text \<open>
  The exceptions that the calls of the program can raise. \<open>ShutilError\<close> is \<open>shutil.Error\<close>
  (the destination of a move exists already); \<open>ValueError\<close> is what \<open>mmap.mmap\<close> raises on
  a file of length zero.
\<close>

datatype exn =
    FileNotFoundError
  | IsADirectoryError
  | NotADirectoryError
  | PermissionError
  | ValueError
  | JSONDecodeError
  | ZeroDivisionError
  | EOFError
  | ShutilError

fun exn_str :: "exn \<Rightarrow> string" where
  "exn_str FileNotFoundError = ''No such file or directory''"
| "exn_str IsADirectoryError = ''Is a directory''"
| "exn_str NotADirectoryError = ''Not a directory''"
| "exn_str PermissionError = ''Permission denied''"
| "exn_str ValueError = ''cannot mmap an empty file''"
| "exn_str JSONDecodeError = ''Expecting value''"
| "exn_str ZeroDivisionError = ''integer modulo by zero''"
| "exn_str EOFError = ''EOF when reading a line''"
| "exn_str ShutilError = ''Destination path already exists''"

text \<open>
  The libraries the program imports are parameters: the digest of \<open>xxhash.xxh64\<close> over a
  byte string (as \<open>hexdigest\<close> returns it), the text \<open>json.dump\<close> writes for a dictionary,
  and the dictionary \<open>json.load\<close> reads from a text (\<open>None\<close> when it raises).
\<close>

record lib =
  xxh64 :: "string \<Rightarrow> string"
  json_dump :: "file_info_dict \<Rightarrow> string"
  json_load :: "string \<Rightarrow> file_info_dict option"

text \<open>The configuration that \<open>load_config\<close> reads from \<open>config.json\<close>.\<close>

record config =
  directories :: "path list"
  ignore_list :: "string list"
  temp_file :: path
  save_interval :: int
  log_file :: path

text \<open>What the program prints and what it hands to \<open>logging\<close>, in the order it happens.\<close>

datatype level = INFO | WARNING | ERROR

datatype event = Print string | Log level string

text \<open>
  A file has its bytes, its modification time and whether this process may read it. The
  name space is flat: a path names a file, a directory or nothing; distinct path strings
  name distinct objects, and a directory node carries no children.
\<close>

record fdata =
  content :: string
  mtime :: int
  readable :: bool

datatype node = Dir | File fdata

text \<open>
  The world the program runs in:
  \<^item> \<open>nodes\<close>: the file system;
  \<^item> \<open>walk\<close>: what \<open>os.walk\<close> yields for a directory, as the list of its
    \<open>(root, files)\<close> (the sub-directory component of each triple is not used);
  \<^item> \<open>write_denied\<close>: the paths that the operating system refuses to create, overwrite,
    rename or remove (permissions, a missing parent directory);
  \<^item> \<open>clock\<close>: the time stamp a file receives when it is written;
  \<^item> \<open>stdin\<close>: the lines that \<open>input()\<close> will read;
  \<^item> \<open>out\<close>: the events printed and logged so far;
  \<^item> \<open>hash_calls\<close>: the paths \<open>file_hash\<close> has been called on, in order;
  \<^item> \<open>journal\<close>: every completed write of a whole file, as path and text, in order.
  The last two fields only record what happened; no function reads them.
\<close>

record world =
  nodes :: "path \<rightharpoonup> node"
  walk :: "path \<Rightarrow> (path \<times> string list) list"
  write_denied :: "path \<Rightarrow> bool"
  clock :: int
  stdin :: "string list"
  out :: "event list"
  hash_calls :: "path list"
  journal :: "(path \<times> string) list"

definition emit :: "event list \<Rightarrow> world \<Rightarrow> world" where
  "emit es w = w\<lparr>out := out w @ es\<rparr>"

text \<open>\<open>print(msg)\<close> followed by a call of \<open>logging\<close> with the same message.\<close>

definition print_and_log :: "level \<Rightarrow> string \<Rightarrow> world \<Rightarrow> world" where
  "print_and_log lv msg w = emit [Print msg, Log lv msg] w"

definition os_path_exists :: "world \<Rightarrow> path \<Rightarrow> bool" where
  "os_path_exists w p = (nodes w p \<noteq> None)"

definition os_path_isdir :: "world \<Rightarrow> path \<Rightarrow> bool" where
  "os_path_isdir w p = (nodes w p = Some Dir)"

text \<open>\<open>os.path.getsize\<close> and \<open>os.path.getmtime\<close>; a directory node has neither in this model.\<close>

definition os_path_getsize :: "world \<Rightarrow> path \<Rightarrow> exn + nat" where
  "os_path_getsize w p =
     (case nodes w p of
        None \<Rightarrow> Inl FileNotFoundError
      | Some Dir \<Rightarrow> Inr 0
      | Some (File f) \<Rightarrow> Inr (length (content f)))"

definition os_path_getmtime :: "world \<Rightarrow> path \<Rightarrow> exn + int" where
  "os_path_getmtime w p =
     (case nodes w p of
        None \<Rightarrow> Inl FileNotFoundError
      | Some Dir \<Rightarrow> Inr 0
      | Some (File f) \<Rightarrow> Inr (mtime f))"

text \<open>Opening a file for reading and reading all of it.\<close>

definition read_file :: "world \<Rightarrow> path \<Rightarrow> exn + string" where
  "read_file w p =
     (case nodes w p of
        None \<Rightarrow> Inl FileNotFoundError
      | Some Dir \<Rightarrow> Inl IsADirectoryError
      | Some (File f) \<Rightarrow> if readable f then Inr (content f) else Inl PermissionError)"

text \<open>
  \<open>with open(p, 'w') as f: json.dump(d, f, indent=4)\<close> with the text already computed:
  the file is created or replaced as a whole.
\<close>

definition write_file :: "path \<Rightarrow> string \<Rightarrow> world \<Rightarrow> exn + world" where
  "write_file p s w =
     (case nodes w p of
        Some Dir \<Rightarrow> Inl IsADirectoryError
      | Some (File f) \<Rightarrow>
          if write_denied w p then Inl PermissionError
          else Inr (w\<lparr>nodes := (nodes w)(p \<mapsto> File (f\<lparr>content := s, mtime := clock w\<rparr>)),
                      journal := journal w @ [(p, s)]\<rparr>)
      | None \<Rightarrow>
          if write_denied w p then Inl PermissionError
          else Inr (w\<lparr>nodes := (nodes w)(p \<mapsto>
                          File \<lparr>content = s, mtime = clock w, readable = True\<rparr>),
                      journal := journal w @ [(p, s)]\<rparr>))"

definition os_remove :: "path \<Rightarrow> world \<Rightarrow> exn + world" where
  "os_remove p w =
     (case nodes w p of
        None \<Rightarrow> Inl FileNotFoundError
      | Some Dir \<Rightarrow> Inl IsADirectoryError
      | Some (File f) \<Rightarrow>
          if write_denied w p then Inl PermissionError
          else Inr (w\<lparr>nodes := (nodes w)(p := None)\<rparr>))"

text \<open>\<open>os.makedirs\<close> is only called on a path that does not exist.\<close>

definition os_makedirs :: "path \<Rightarrow> world \<Rightarrow> exn + world" where
  "os_makedirs p w =
     (if p = [] then Inl FileNotFoundError
      else if write_denied w p then Inl PermissionError
      else Inr (w\<lparr>nodes := (nodes w)(p \<mapsto> Dir)\<rparr>))"

definition os_rename :: "path \<Rightarrow> path \<Rightarrow> world \<Rightarrow> exn + world" where
  "os_rename src dst w =
     (case nodes w src of
        None \<Rightarrow> Inl FileNotFoundError
      | Some n \<Rightarrow>
          if src = dst then Inr w
          else if write_denied w src \<or> write_denied w dst then Inl PermissionError
          else (case (n, nodes w dst) of
                  (File f, Some Dir) \<Rightarrow> Inl IsADirectoryError
                | (Dir, Some (File g)) \<Rightarrow> Inl NotADirectoryError
                | _ \<Rightarrow> Inr (w\<lparr>nodes := (nodes w)(src := None, dst \<mapsto> n)\<rparr>)))"

text \<open>
  \<open>shutil.move(src, dst)\<close>: into \<open>dst\<close> under the base name of \<open>src\<close> when \<open>dst\<close> is a
  directory (an error when that name is taken), onto \<open>dst\<close> otherwise. A rename that is
  refused leaves the file system as it was; the fallback of \<open>shutil.move\<close> that copies and
  then unlinks is not modelled.
\<close>

definition shutil_move :: "path \<Rightarrow> path \<Rightarrow> world \<Rightarrow> exn + world" where
  "shutil_move src dst w =
     (if os_path_isdir w dst then
        if src = dst then os_rename src dst w
        else (let real_dst = os_path_join dst (shutil_basename src) in
              if os_path_exists w real_dst then Inl ShutilError
              else os_rename src real_dst w)
      else os_rename src dst w)"

text \<open>\<open>input(prompt)\<close> prints the prompt and reads one line.\<close>

definition py_input :: "string \<Rightarrow> world \<Rightarrow> (exn + string) \<times> world" where
  "py_input prompt w =
     (case stdin w of
        [] \<Rightarrow> (Inl EOFError, emit [Print prompt] w)
      | l # ls \<Rightarrow> (Inr l, (emit [Print prompt] w)\<lparr>stdin := ls\<rparr>))"

section \<open>Fingerprinting\<close>

text \<open>
  \<open>file_hash\<close>, lines 54 to 64. The body of the \<open>try\<close> opens the file, maps it and
  digests the bytes; every exception is logged and turned into \<open>None\<close>.
\<close>

definition file_hash_try :: "lib \<Rightarrow> world \<Rightarrow> path \<Rightarrow> exn + string" where
  "file_hash_try lb w file_path =
     (case read_file w file_path of
        Inl e \<Rightarrow> Inl e
      | Inr bytes \<Rightarrow> if bytes = [] then Inl ValueError else Inr (xxh64 lb bytes))"

definition file_hash :: "lib \<Rightarrow> path \<Rightarrow> world \<Rightarrow> string option \<times> world" where
  "file_hash lb file_path w =
     (let w1 = w\<lparr>hash_calls := hash_calls w @ [file_path]\<rparr> in
      case file_hash_try lb w file_path of
        Inr digest \<Rightarrow> (Some digest, w1)
      | Inl e \<Rightarrow>
          (None, emit [Log ERROR (''Error reading '' @ file_path @ '': '' @ exn_str e)] w1))"

section \<open>Collecting file information\<close>

text \<open>
  \<open>collect_file_info\<close>, lines 66 to 109.

  Lines 75 to 81: the candidate paths, every file of every walked directory whose name
  starts with no prefix of the ignore list.
\<close>

definition ignored :: "config \<Rightarrow> string \<Rightarrow> bool" where
  "ignored cfg file = list_ex (\<lambda>prefix. startswith file prefix) (ignore_list cfg)"

definition collect_file_paths :: "config \<Rightarrow> world \<Rightarrow> path list \<Rightarrow> path list" where
  "collect_file_paths cfg w dirs =
     concat (map (\<lambda>directory.
       concat (map (\<lambda>(root, files).
         map (\<lambda>file. os_path_join root file) (filter (\<lambda>file. \<not> ignored cfg file) files))
         (walk w directory)))
       dirs)"

text \<open>
  Line 84: one future per candidate path that is not a key of the loaded dictionary. The
  workers run \<open>file_hash\<close>; the model runs them in the order of submission, before the first
  result is consumed.
\<close>

definition pending_paths :: "file_info_dict \<Rightarrow> path list \<Rightarrow> path list" where
  "pending_paths file_info_dict file_paths =
     filter (\<lambda>file_path. file_path \<notin> set (map fst file_info_dict)) file_paths"

fun run_workers ::
  "lib \<Rightarrow> path list \<Rightarrow> world \<Rightarrow> (path \<times> string option) list \<times> world" where
  "run_workers lb [] w = ([], w)"
| "run_workers lb (file_path # rest) w =
     (let (r, w1) = file_hash lb file_path w;
          (rs, w2) = run_workers lb rest w1
      in ((file_path, r) # rs, w2))"

text \<open>
  Lines 90 to 97: a result that is neither \<open>None\<close> nor the empty string is merged under its
  path, with the size and the modification time read at that moment.
\<close>

definition truthy :: "string option \<Rightarrow> bool" where
  "truthy r = (case r of None \<Rightarrow> False | Some s \<Rightarrow> s \<noteq> [])"

definition merge_result ::
  "world \<Rightarrow> path \<Rightarrow> string option \<Rightarrow> file_info_dict \<Rightarrow> exn + file_info_dict" where
  "merge_result w file_path file_hash_result file_info_dict =
     (if truthy file_hash_result then
        (case os_path_getsize w file_path of
           Inl e \<Rightarrow> Inl e
         | Inr sz \<Rightarrow>
             (case os_path_getmtime w file_path of
                Inl e \<Rightarrow> Inl e
              | Inr mt \<Rightarrow>
                  Inr (AList.update file_path
                         \<lparr>name = os_path_basename file_path, hash = the file_hash_result,
                          fsize = sz, modified_time = mt\<rparr> file_info_dict)))
      else Inr file_info_dict)"

text \<open>
  Lines 87 to 103: the loop over the futures in the order they complete. After every
  result the dictionary is written to the temp file when its length is a multiple of
  \<open>save_interval\<close>; the modulo raises when the interval is zero. The progress bar is not
  modelled.
\<close>

fun collect_loop ::
  "lib \<Rightarrow> config \<Rightarrow> path \<Rightarrow> (path \<times> string option) list \<Rightarrow> file_info_dict \<Rightarrow> world
     \<Rightarrow> (exn + file_info_dict) \<times> world" where
  "collect_loop lb cfg tmp [] file_info_dict w = (Inr file_info_dict, w)"
| "collect_loop lb cfg tmp ((file_path, file_hash_result) # rest) file_info_dict w =
     (case merge_result w file_path file_hash_result file_info_dict of
        Inl e \<Rightarrow> (Inl e, w)
      | Inr d \<Rightarrow>
          if save_interval cfg = 0 then (Inl ZeroDivisionError, w)
          else if int (length d) mod save_interval cfg = 0 then
            (case write_file tmp (json_dump lb d) w of
               Inl e \<Rightarrow> (Inl e, w)
             | Inr w1 \<Rightarrow> collect_loop lb cfg tmp rest d w1)
          else collect_loop lb cfg tmp rest d w)"

text \<open>Lines 70 to 73: the progress of an earlier run, when the temp file exists.\<close>

definition load_progress :: "lib \<Rightarrow> path \<Rightarrow> world \<Rightarrow> exn + file_info_dict" where
  "load_progress lb tmp w =
     (if os_path_exists w tmp then
        (case read_file w tmp of
           Inl e \<Rightarrow> Inl e
         | Inr text \<Rightarrow>
             (case json_load lb text of None \<Rightarrow> Inl JSONDecodeError | Some d \<Rightarrow> Inr d))
      else Inr [])"

text \<open>
  The whole function. \<open>completion\<close> is the order in which \<open>as_completed\<close> yields the
  futures: a rearrangement of the list of submitted futures, chosen by the scheduler.
\<close>

definition collect_file_info ::
  "lib \<Rightarrow> config \<Rightarrow> ((path \<times> string option) list \<Rightarrow> (path \<times> string option) list)
     \<Rightarrow> path list \<Rightarrow> path \<Rightarrow> world \<Rightarrow> (exn + file_info_dict) \<times> world" where
  "collect_file_info lb cfg completion dirs tmp w =
     (case load_progress lb tmp w of
        Inl e \<Rightarrow> (Inl e, w)
      | Inr loaded \<Rightarrow>
          (let file_paths = collect_file_paths cfg w dirs;
               (futures, w1) = run_workers lb (pending_paths loaded file_paths) w
           in case collect_loop lb cfg tmp (completion futures) loaded w1 of
                (Inl e, w2) \<Rightarrow> (Inl e, w2)
              | (Inr d, w2) \<Rightarrow>
                  (case write_file tmp (json_dump lb d) w2 of
                     Inl e \<Rightarrow> (Inl e, w2)
                   | Inr w3 \<Rightarrow> (Inr d, w3))))"

text \<open>
  The closed model above is one schedule: every worker has read its file before the first
  result is consumed, and nothing but the loop changes the file system. It is used for the
  statements on which paths are fingerprinted and which records a run can add, and for the
  example runs. It does not tell what lines 89, 94 and 95 observe of a file that changes
  while the loop runs: the workers run concurrently with the loop and append to the log
  file when a read fails, the loop rewrites the temp file, and one file may be reached
  under several names.

  The open form of the function assumes nothing about that. A completed future comes with
  the three answers the loop obtains for it: the value of \<open>future.result()\<close>, and what
  \<open>os.path.getsize\<close> and \<open>os.path.getmtime\<close> return for its path when the result is merged
  (they are called only then). The futures are listed in the order in which
  \<open>as_completed\<close> yields them. The statements on the periodic saves and on the order of
  completion are about the open form.
\<close>

record completed =
  future_path :: path
  future_result :: "string option"
  size_read :: "exn + nat"
  mtime_read :: "exn + int"

text \<open>Lines 90 to 97 with the three answers given.\<close>

definition merge_given :: "completed \<Rightarrow> file_info_dict \<Rightarrow> exn + file_info_dict" where
  "merge_given c file_info_dict =
     (if truthy (future_result c) then
        (case size_read c of
           Inl e \<Rightarrow> Inl e
         | Inr sz \<Rightarrow>
             (case mtime_read c of
                Inl e \<Rightarrow> Inl e
              | Inr mt \<Rightarrow>
                  Inr (AList.update (future_path c)
                         \<lparr>name = os_path_basename (future_path c), hash = the (future_result c),
                          fsize = sz, modified_time = mt\<rparr> file_info_dict)))
      else Inr file_info_dict)"

text \<open>Lines 87 to 103 with the three answers given: the loop of \<open>collect_loop\<close>.\<close>

fun collect_loop_open ::
  "lib \<Rightarrow> config \<Rightarrow> path \<Rightarrow> completed list \<Rightarrow> file_info_dict \<Rightarrow> world
     \<Rightarrow> (exn + file_info_dict) \<times> world" where
  "collect_loop_open lb cfg tmp [] file_info_dict w = (Inr file_info_dict, w)"
| "collect_loop_open lb cfg tmp (c # rest) file_info_dict w =
     (case merge_given c file_info_dict of
        Inl e \<Rightarrow> (Inl e, w)
      | Inr d \<Rightarrow>
          if save_interval cfg = 0 then (Inl ZeroDivisionError, w)
          else if int (length d) mod save_interval cfg = 0 then
            (case write_file tmp (json_dump lb d) w of
               Inl e \<Rightarrow> (Inl e, w)
             | Inr w1 \<Rightarrow> collect_loop_open lb cfg tmp rest d w1)
          else collect_loop_open lb cfg tmp rest d w)"

text \<open>
  The whole function in the open form. \<open>arrivals\<close> gives, for the paths submitted at line
  84, the completed futures in the order of completion.
\<close>

definition collect_file_info_open ::
  "lib \<Rightarrow> config \<Rightarrow> (path list \<Rightarrow> completed list)
     \<Rightarrow> path list \<Rightarrow> path \<Rightarrow> world \<Rightarrow> (exn + file_info_dict) \<times> world" where
  "collect_file_info_open lb cfg arrivals dirs tmp w =
     (case load_progress lb tmp w of
        Inl e \<Rightarrow> (Inl e, w)
      | Inr loaded \<Rightarrow>
          (let file_paths = collect_file_paths cfg w dirs;
               futures = pending_paths loaded file_paths
           in case collect_loop_open lb cfg tmp (arrivals futures) loaded w of
                (Inl e, w2) \<Rightarrow> (Inl e, w2)
              | (Inr d, w2) \<Rightarrow>
                  (case write_file tmp (json_dump lb d) w2 of
                     Inl e \<Rightarrow> (Inl e, w2)
                   | Inr w3 \<Rightarrow> (Inr d, w3))))"

section \<open>Saving, loading and verifying a report\<close>

text \<open>\<open>save_file_info\<close>, lines 111 to 118.\<close>

definition save_file_info ::
  "lib \<Rightarrow> file_info_dict \<Rightarrow> path \<Rightarrow> world \<Rightarrow> (exn + unit) \<times> world" where
  "save_file_info lb file_info_dict output_file w =
     (let (output_file1, w1) =
            (if os_path_isdir w output_file then
               (os_path_join output_file ''file_info_report.json'',
                print_and_log ERROR
                  (''Error: '' @ output_file
                     @ '' is a directory. Saving to default file 'file_info_report.json'.'') w)
             else (output_file, w))
      in case write_file output_file1 (json_dump lb file_info_dict) w1 of
           Inl e \<Rightarrow> (Inl e, w1)
         | Inr w2 \<Rightarrow> (Inr (), w2))"

text \<open>\<open>load_file_info\<close>, lines 120 to 123.\<close>

definition load_file_info :: "lib \<Rightarrow> path \<Rightarrow> world \<Rightarrow> exn + file_info_dict" where
  "load_file_info lb input_file w =
     (case read_file w input_file of
        Inl e \<Rightarrow> Inl e
      | Inr text \<Rightarrow>
          (case json_load lb text of None \<Rightarrow> Inl JSONDecodeError | Some d \<Rightarrow> Inr d))"

text \<open>
  \<open>verify_file_info\<close>, lines 125 to 139. The comparison \<open>current_hash == file_info['hash']\<close>
  is between the optional result of \<open>file_hash\<close> and the stored string.
\<close>

fun verify_loop ::
  "lib \<Rightarrow> file_info_dict \<Rightarrow> file_info_dict \<Rightarrow> world \<Rightarrow> file_info_dict \<times> world" where
  "verify_loop lb [] verified_file_info_dict w = (verified_file_info_dict, w)"
| "verify_loop lb ((file_path, info) # rest) verified_file_info_dict w =
     (if os_path_exists w file_path then
        (let (current_hash, w1) = file_hash lb file_path w in
         if current_hash = Some (hash info) then
           verify_loop lb rest (AList.update file_path info verified_file_info_dict) w1
         else
           verify_loop lb rest verified_file_info_dict
             (emit [Log WARNING (''File hash changed: '' @ file_path)] w1))
      else
        verify_loop lb rest verified_file_info_dict
          (emit [Log WARNING (''File not found: '' @ file_path)] w))"

definition verify_file_info ::
  "lib \<Rightarrow> file_info_dict \<Rightarrow> world \<Rightarrow> file_info_dict \<times> world" where
  "verify_file_info lb file_info_dict w = verify_loop lb file_info_dict [] w"

section \<open>Duplicate detection\<close>

text \<open>
  \<open>find_duplicates_from_info\<close>, lines 141 to 161. The loop carries the dictionary \<open>hashes\<close>
  (hash to first path seen, a map since its order is never used) and the list \<open>duplicates\<close>.
  The messages the function prints and logs do not influence the returned list and are left
  out.
\<close>

fun find_duplicates_loop ::
  "file_info_dict \<Rightarrow> (string \<rightharpoonup> path) \<Rightarrow> (path \<times> path) list \<Rightarrow> (path \<times> path) list" where
  "find_duplicates_loop [] hashes duplicates = duplicates"
| "find_duplicates_loop ((file_path, info) # rest) hashes duplicates =
     (case hashes (hash info) of
        Some first_seen \<Rightarrow>
          find_duplicates_loop rest hashes (duplicates @ [(file_path, first_seen)])
      | None \<Rightarrow>
          find_duplicates_loop rest (hashes(hash info \<mapsto> file_path)) duplicates)"

definition find_duplicates_from_info :: "file_info_dict \<Rightarrow> (path \<times> path) list" where
  "find_duplicates_from_info file_info_dict = find_duplicates_loop file_info_dict Map.empty []"

text \<open>The paths of a dictionary that carry the hash \<open>h\<close>, in iteration order.\<close>

definition paths_with_hash :: "string \<Rightarrow> file_info_dict \<Rightarrow> path list" where
  "paths_with_hash h d = map fst (filter (\<lambda>e. hash (snd e) = h) d)"

section \<open>Resolving duplicates\<close>

text \<open>
  \<open>handle_duplicates\<close>, lines 173 to 252. A \<open>try\<close> block around a removal or a move
  reports the outcome and goes on. The message of a failure starts with \<open>err\<close>, which
  differs between the two levels of the dialogue.
\<close>

definition try_remove :: "string \<Rightarrow> path \<Rightarrow> world \<Rightarrow> world" where
  "try_remove err p w =
     (case os_remove p w of
        Inr w1 \<Rightarrow> print_and_log INFO (''Deleted '' @ p) w1
      | Inl e \<Rightarrow> print_and_log ERROR (err @ p @ '': '' @ exn_str e) w)"

definition try_move :: "string \<Rightarrow> path \<Rightarrow> path \<Rightarrow> world \<Rightarrow> world" where
  "try_move err p target_directory w =
     (case shutil_move p target_directory w of
        Inr w1 \<Rightarrow> print_and_log INFO (''Moved '' @ p @ '' to '' @ target_directory) w1
      | Inl e \<Rightarrow> print_and_log ERROR (err @ p @ '': '' @ exn_str e) w)"

text \<open>
  The target of a move is asked for and created when it does not exist; \<open>os.makedirs\<close> is
  outside every \<open>try\<close>, so its exception ends the run.
\<close>

definition ask_target_directory :: "world \<Rightarrow> (exn + path) \<times> world" where
  "ask_target_directory w =
     (case py_input ''Enter target directory for moving: '' w of
        (Inl e, w1) \<Rightarrow> (Inl e, w1)
      | (Inr raw, w1) \<Rightarrow>
          (let target_directory = strip raw in
           if \<not> os_path_exists w1 target_directory then
             (case os_makedirs target_directory w1 of
                Inl e \<Rightarrow> (Inl e, w1)
              | Inr w2 \<Rightarrow> (Inr target_directory, w2))
           else (Inr target_directory, w1)))"

text \<open>
  Lines 206 to 249, the body of the loop of the individual mode. The chain of conditions is
  the one of the source: the second and the fourth test repeat the first and the third.
\<close>

definition handle_pair :: "path \<times> path \<Rightarrow> world \<Rightarrow> (exn + unit) \<times> world" where
  "handle_pair dup w =
     (let w0 = emit [Print ([CHR 0x0A] @ ''Duplicate found:'' @ [CHR 0x0A] @ ''1. '' @ fst dup
                       @ [CHR 0x0A] @ ''2. '' @ snd dup)] w in
      case py_input ''Choose action: [k]eep both, [d]elete first, [D]elete second, [m]ove first, [M]ove second: '' w0 of
        (Inl e, w1) \<Rightarrow> (Inl e, w1)
      | (Inr raw, w1) \<Rightarrow>
          (let individual_action = lower (strip raw) in
           if individual_action = ''d'' then
             (Inr (), try_remove ''Error deleting '' (fst dup) w1)
           else if individual_action = ''d'' then
             (Inr (), try_remove ''Error deleting '' (snd dup) w1)
           else if individual_action = ''m'' then
             (case ask_target_directory w1 of
                (Inl e, w2) \<Rightarrow> (Inl e, w2)
              | (Inr target_directory, w2) \<Rightarrow>
                  (Inr (), try_move ''Error moving '' (fst dup) target_directory w2))
           else if individual_action = ''m'' then
             (case ask_target_directory w1 of
                (Inl e, w2) \<Rightarrow> (Inl e, w2)
              | (Inr target_directory, w2) \<Rightarrow>
                  (Inr (), try_move ''Error moving '' (snd dup) target_directory w2))
           else
             (Inr (), emit [Print ''Keeping both files.'',
                            Log INFO (''Keeping both files: '' @ fst dup @ '' and '' @ snd dup)]
                        w1)))"

fun handle_individual :: "(path \<times> path) list \<Rightarrow> world \<Rightarrow> (exn + unit) \<times> world" where
  "handle_individual [] w = (Inr (), w)"
| "handle_individual (dup # rest) w =
     (case handle_pair dup w of
        (Inl e, w1) \<Rightarrow> (Inl e, w1)
      | (Inr u, w1) \<Rightarrow> handle_individual rest w1)"

text \<open>Lines 176 to 252, the body of the loop over the directories.\<close>

definition handle_group ::
  "path \<times> (path \<times> path) list \<Rightarrow> world \<Rightarrow> (exn + unit) \<times> world" where
  "handle_group g w =
     (let dir_path = fst g; duplicates = snd g;
          w0 = emit [Print ([CHR 0x0A] @ ''Directory: '' @ dir_path)] w in
      case py_input ''Choose action for this directory: [s]kip, [d]elete all, [m]ove all, [i]ndividual: '' w0 of
        (Inl e, w1) \<Rightarrow> (Inl e, w1)
      | (Inr raw, w1) \<Rightarrow>
          (let action = lower (strip raw) in
           if action = ''s'' then
             (Inr (), print_and_log INFO (''Skipping directory: '' @ dir_path) w1)
           else if action = ''d'' then
             (Inr (), fold (\<lambda>dup. try_remove ''Error deleting file '' (fst dup)) duplicates w1)
           else if action = ''m'' then
             (case ask_target_directory w1 of
                (Inl e, w2) \<Rightarrow> (Inl e, w2)
              | (Inr target_directory, w2) \<Rightarrow>
                  (Inr (), fold (\<lambda>dup. try_move ''Error moving file '' (fst dup) target_directory)
                             duplicates w2))
           else if action = ''i'' then handle_individual duplicates w1
           else
             (Inr (), emit [Print ''Invalid action. Skipping directory.'',
                            Log INFO (''Invalid action. Skipping directory: '' @ dir_path)] w1)))"

fun handle_duplicates ::
  "(path \<times> (path \<times> path) list) list \<Rightarrow> world \<Rightarrow> (exn + unit) \<times> world" where
  "handle_duplicates [] w = (Inr (), w)"
| "handle_duplicates (g # rest) w =
     (case handle_group g w of
        (Inl e, w1) \<Rightarrow> (Inl e, w1)
      | (Inr u, w1) \<Rightarrow> handle_duplicates rest w1)"

section \<open>Auxiliary notions for the statements\<close>

text \<open>
  The pairs a group of paths with one hash is expected to give, when the first path of the
  group is already known (\<open>Some f\<close>) and when it is not: every later path against the first.
\<close>

definition fan :: "path option \<Rightarrow> path list \<Rightarrow> (path \<times> path) list" where
  "fan known ps =
     (case known of
        Some f \<Rightarrow> map (\<lambda>p. (p, f)) ps
      | None \<Rightarrow> (case ps of [] \<Rightarrow> [] | f # later \<Rightarrow> map (\<lambda>p. (p, f)) later))"

text \<open>
  What \<open>file_hash\<close> returns for a path and what it logs, as functions of the file system.
\<close>

definition hash_result :: "lib \<Rightarrow> world \<Rightarrow> path \<Rightarrow> string option" where
  "hash_result lb w p =
     (case file_hash_try lb w p of Inr digest \<Rightarrow> Some digest | Inl e \<Rightarrow> None)"

definition hash_events :: "lib \<Rightarrow> world \<Rightarrow> path \<Rightarrow> event list" where
  "hash_events lb w p =
     (case file_hash_try lb w p of
        Inr digest \<Rightarrow> []
      | Inl e \<Rightarrow> [Log ERROR (''Error reading '' @ p @ '': '' @ exn_str e)])"

text \<open>
  Whether verification keeps a record, and the events one record contributes to the log of
  a verification.
\<close>

definition keeps :: "lib \<Rightarrow> world \<Rightarrow> path \<times> file_info \<Rightarrow> bool" where
  "keeps lb w e =
     (os_path_exists w (fst e) \<and> hash_result lb w (fst e) = Some (hash (snd e)))"

definition verify_events :: "lib \<Rightarrow> world \<Rightarrow> path \<times> file_info \<Rightarrow> event list" where
  "verify_events lb w e =
     (if os_path_exists w (fst e) then
        hash_events lb w (fst e)
          @ (if hash_result lb w (fst e) = Some (hash (snd e)) then []
             else [Log WARNING (''File hash changed: '' @ fst e)])
      else [Log WARNING (''File not found: '' @ fst e)])"

text \<open>Whether a text can be written to a path.\<close>

definition can_write :: "world \<Rightarrow> path \<Rightarrow> bool" where
  "can_write w p = (nodes w p \<noteq> Some Dir \<and> \<not> write_denied w p)"

text \<open>The paths for which line 84 submits a future, when the temp file gave \<open>loaded\<close>.\<close>

definition submitted :: "config \<Rightarrow> world \<Rightarrow> path list \<Rightarrow> file_info_dict \<Rightarrow> path list" where
  "submitted cfg w dirs loaded = pending_paths loaded (collect_file_paths cfg w dirs)"

text \<open>
  The dictionary after the merge of one completed future, and the working mapping of the
  loop after the first \<open>i\<close> completed futures of \<open>E\<close>, starting from \<open>d\<close>.
\<close>

definition merged_given :: "completed \<Rightarrow> file_info_dict \<Rightarrow> file_info_dict" where
  "merged_given c d = (case merge_given c d of Inr d' \<Rightarrow> d' | Inl e \<Rightarrow> d)"

definition working_mapping :: "completed list \<Rightarrow> file_info_dict \<Rightarrow> nat \<Rightarrow> file_info_dict" where
  "working_mapping E d i = fold merged_given (take i E) d"

text \<open>
  The periodic saves of a run: for each completed future, in order, after which the number
  of records in the working mapping is a multiple of the interval, one write of the dump
  of that working mapping to the temp file.
\<close>

definition periodic_saves ::
  "lib \<Rightarrow> config \<Rightarrow> path \<Rightarrow> completed list \<Rightarrow> file_info_dict \<Rightarrow> (path \<times> string) list" where
  "periodic_saves lb cfg tmp E d =
     map (\<lambda>i. (tmp, json_dump lb (working_mapping E d i)))
       (filter (\<lambda>i. save_interval cfg dvd int (length (working_mapping E d i)))
          [1..<Suc (length E)])"

text \<open>
  A completed future whose merge does not raise: when its result is merged, both calls of
  \<open>os.path\<close> answered. The record the merge then builds.
\<close>

definition mergeable :: "completed \<Rightarrow> bool" where
  "mergeable c =
     (truthy (future_result c) \<longrightarrow> \<not> isl (size_read c) \<and> \<not> isl (mtime_read c))"

definition given_record :: "completed \<Rightarrow> file_info" where
  "given_record c =
     \<lparr>name = os_path_basename (future_path c), hash = the (future_result c),
      fsize = (case size_read c of Inr n \<Rightarrow> n | Inl e \<Rightarrow> 0),
      modified_time = (case mtime_read c of Inr t \<Rightarrow> t | Inl e \<Rightarrow> 0)\<rparr>"

text \<open>A path that names a file of length zero.\<close>

definition empty_file :: "world \<Rightarrow> path \<Rightarrow> bool" where
  "empty_file w p = (case nodes w p of Some (File f) \<Rightarrow> content f = [] | _ \<Rightarrow> False)"

section \<open>Example inputs\<close>

definition example_info :: "string \<Rightarrow> string \<Rightarrow> file_info" where
  "example_info n h = \<lparr>name = n, hash = h, fsize = 3, modified_time = 7\<rparr>"

text \<open>Three files with one hash and a fourth with another, as a loaded dictionary.\<close>

definition example_dict :: file_info_dict where
  "example_dict =
     [(''/s/a.txt'', example_info ''a.txt'' ''h1''),
      (''/s/b.txt'', example_info ''b.txt'' ''h1''),
      (''/s/d.txt'', example_info ''d.txt'' ''h2''),
      (''/s/c.txt'', example_info ''c.txt'' ''h1'')]"

text \<open>
  A stand-in for the libraries: the digest prefixes the bytes with \<open>xx\<close>, the dump lists
  path and hash of every record, and the load knows the texts the examples read.
\<close>

definition example_dump :: "file_info_dict \<Rightarrow> string" where
  "example_dump d =
     ''{'' @ concat (map (\<lambda>e. fst e @ ''='' @ hash (snd e) @ '';'') d) @ ''}''"

text \<open>A temp file written when two files, since emptied, had equal bytes.\<close>

definition stale_dict :: file_info_dict where
  "stale_dict =
     [(''/s/c.txt'', example_info ''c.txt'' ''xxold''),
      (''/s/d.txt'', example_info ''d.txt'' ''xxold'')]"

definition example_load :: "string \<Rightarrow> file_info_dict option" where
  "example_load text =
     (if text = ''{}'' then Some []
      else if text = example_dump example_dict then Some example_dict
      else if text = example_dump stale_dict then Some stale_dict
      else None)"

definition example_lib :: lib where
  "example_lib = \<lparr>xxh64 = (\<lambda>bytes. ''xx'' @ bytes), json_dump = example_dump,
                   json_load = example_load\<rparr>"

definition example_fdata :: "string \<Rightarrow> bool \<Rightarrow> fdata" where
  "example_fdata bytes r = \<lparr>content = bytes, mtime = 5, readable = r\<rparr>"

definition example_config :: config where
  "example_config = \<lparr>directories = [''/s''], ignore_list = [''.''],
     temp_file = ''/tmp/progress.json'', save_interval = 2, log_file = ''dups.log''\<rparr>"

text \<open>
  A directory with two equal files, two empty files and a hidden file; no temp file yet.
\<close>

definition scan_world :: world where
  "scan_world =
     \<lparr>nodes = [''/s/a.txt'' \<mapsto> File (example_fdata ''same'' True),
               ''/s/b.txt'' \<mapsto> File (example_fdata ''same'' True),
               ''/s/c.txt'' \<mapsto> File (example_fdata [] True),
               ''/s/d.txt'' \<mapsto> File (example_fdata [] True)],
      walk = (\<lambda>directory. if directory = ''/s''
                then [(''/s'', [''a.txt'', ''b.txt'', ''c.txt'', ''d.txt'', ''.hidden''])]
                else []),
      write_denied = (\<lambda>_. False), clock = 9, stdin = [], out = [],
      hash_calls = [], journal = []\<rparr>"

text \<open>The same directory with the temp file of an earlier run that recorded all four files.\<close>

definition resume_world :: world where
  "resume_world = scan_world\<lparr>nodes := (nodes scan_world)(''/tmp/progress.json'' \<mapsto>
      File (example_fdata (example_dump example_dict) True))\<rparr>"

text \<open>
  A report of four files, and a world in which the first is unchanged, the second is gone,
  the third has new bytes and the fourth cannot be read.
\<close>

definition verify_dict :: file_info_dict where
  "verify_dict =
     [(''/s/a.txt'', example_info ''a.txt'' ''xxsame''),
      (''/s/b.txt'', example_info ''b.txt'' ''xxsame''),
      (''/s/c.txt'', example_info ''c.txt'' ''xxold''),
      (''/s/d.txt'', example_info ''d.txt'' ''xxsecret'')]"

definition verify_world :: world where
  "verify_world =
     \<lparr>nodes = [''/s/a.txt'' \<mapsto> File (example_fdata ''same'' True),
               ''/s/c.txt'' \<mapsto> File (example_fdata ''new'' True),
               ''/s/d.txt'' \<mapsto> File (example_fdata ''secret'' False)],
      walk = (\<lambda>_. []), write_denied = (\<lambda>_. False), clock = 9, stdin = [], out = [],
      hash_calls = [], journal = []\<rparr>"

text \<open>
  A directory \<open>/out\<close>; when \<open>blocked\<close>, the default report name inside it is taken by a
  directory.
\<close>

definition save_world :: "bool \<Rightarrow> world" where
  "save_world blocked =
     \<lparr>nodes = (if blocked then [''/out'' \<mapsto> Dir, ''/out/file_info_report.json'' \<mapsto> Dir]
               else [''/out'' \<mapsto> Dir]),
      walk = (\<lambda>_. []), write_denied = (\<lambda>_. False), clock = 9, stdin = [], out = [],
      hash_calls = [], journal = []\<rparr>"

text \<open>One group with one duplicate pair, both files present, and the replies to be typed.\<close>

definition resolve_world :: "string list \<Rightarrow> world" where
  "resolve_world replies =
     \<lparr>nodes = [''/d/b.txt'' \<mapsto> File (example_fdata ''x'' True),
               ''/e/a.txt'' \<mapsto> File (example_fdata ''x'' True)],
      walk = (\<lambda>_. []), write_denied = (\<lambda>_. False), clock = 9, stdin = replies, out = [],
      hash_calls = [], journal = []\<rparr>"

definition example_groups :: "(path \<times> (path \<times> path) list) list" where
  "example_groups = [(''/d'', [(''/d/b.txt'', ''/e/a.txt'')])]"

text \<open>
  The example directory with the temp file inside it: it holds an empty dictionary and is
  one of the files that \<open>os.walk\<close> lists.
\<close>

definition inside_world :: world where
  "inside_world = scan_world\<lparr>nodes := (nodes scan_world)(''/s/progress.json'' \<mapsto>
        File (example_fdata ''{}'' True)),
      walk := (\<lambda>directory. if directory = ''/s''
                then [(''/s'', [''a.txt'', ''b.txt'', ''c.txt'', ''d.txt'', ''progress.json''])]
                else [])\<rparr>"

definition inside_forward :: file_info_dict where
  "inside_forward =
     [(''/s/a.txt'', \<lparr>name = ''a.txt'', hash = ''xxsame'', fsize = 4, modified_time = 5\<rparr>),
      (''/s/b.txt'', \<lparr>name = ''b.txt'', hash = ''xxsame'', fsize = 4, modified_time = 5\<rparr>),
      (''/s/progress.json'',
       \<lparr>name = ''progress.json'', hash = ''xx{}'', fsize = 34, modified_time = 9\<rparr>)]"

definition inside_backward :: file_info_dict where
  "inside_backward =
     [(''/s/progress.json'',
       \<lparr>name = ''progress.json'', hash = ''xx{}'', fsize = 2, modified_time = 5\<rparr>),
      (''/s/b.txt'', \<lparr>name = ''b.txt'', hash = ''xxsame'', fsize = 4, modified_time = 5\<rparr>),
      (''/s/a.txt'', \<lparr>name = ''a.txt'', hash = ''xxsame'', fsize = 4, modified_time = 5\<rparr>)]"

text \<open>The example directory with the temp file of the emptied files, and what a run returns.\<close>

definition stale_world :: world where
  "stale_world = scan_world\<lparr>nodes := (nodes scan_world)(''/tmp/progress.json'' \<mapsto>
      File (example_fdata (example_dump stale_dict) True))\<rparr>"

definition stale_result :: file_info_dict where
  "stale_result =
     [(''/s/c.txt'', example_info ''c.txt'' ''xxold''),
      (''/s/d.txt'', example_info ''d.txt'' ''xxold''),
      (''/s/b.txt'', \<lparr>name = ''b.txt'', hash = ''xxsame'', fsize = 4, modified_time = 5\<rparr>),
      (''/s/a.txt'', \<lparr>name = ''a.txt'', hash = ''xxsame'', fsize = 4, modified_time = 5\<rparr>)]"

text \<open>What a first scan of the example directory returns when the results arrive in order.\<close>

definition scan_result :: file_info_dict where
  "scan_result =
     [(''/s/a.txt'', \<lparr>name = ''a.txt'', hash = ''xxsame'', fsize = 4, modified_time = 5\<rparr>),
      (''/s/b.txt'', \<lparr>name = ''b.txt'', hash = ''xxsame'', fsize = 4, modified_time = 5\<rparr>)]"

text \<open>
  The completed futures of a first scan of the example directory, in the order of
  submission, with the answers that the example file system gives.
\<close>

definition scan_arrivals :: "path list \<Rightarrow> completed list" where
  "scan_arrivals ps =
     map (\<lambda>p. \<lparr>future_path = p, future_result = fst (file_hash example_lib p scan_world),
               size_read = os_path_getsize scan_world p,
               mtime_read = os_path_getmtime scan_world p\<rparr>) ps"


section \<open>Duplicate detection: the fan of pairs\<close>

lemma find_duplicates_loop_acc:
  "find_duplicates_loop d hs acc = acc @ find_duplicates_loop d hs []"
proof (induction d arbitrary: hs acc)
  case Nil
  then show ?case by simp
next
  case (Cons e d hs acc)
  obtain p i where e: "e = (p, i)" by (cases e)
  show ?case
  proof (cases "hs (hash i)")
    case None
    then have "find_duplicates_loop (e # d) hs acc
                 = find_duplicates_loop d (hs(hash i \<mapsto> p)) acc"
      and "find_duplicates_loop (e # d) hs []
                 = find_duplicates_loop d (hs(hash i \<mapsto> p)) []"
      using e by simp_all
    then show ?thesis
      using Cons.IH[of "hs(hash i \<mapsto> p)" acc] by (simp only:)
  next
    case (Some f)
    then show ?thesis
      using Cons.IH[of hs "acc @ [(p, f)]"] Cons.IH[of hs "[(p, f)]"] e by simp
  qed
qed

text \<open>The pairs whose later member lies in the group of the hash \<open>h\<close>.\<close>

lemma find_duplicates_loop_fan:
  assumes "\<forall>e \<in> set d. (fst e \<in> A) = (hash (snd e) = h)"
  shows "filter (\<lambda>pr. fst pr \<in> A) (find_duplicates_loop d hs [])
           = fan (hs h) (paths_with_hash h d)"
  using assms
proof (induction d arbitrary: hs)
  case Nil
  then show ?case by (simp add: fan_def paths_with_hash_def split: option.splits)
next
  case (Cons e d hs)
  obtain p i where e: "e = (p, i)" by (cases e)
  have IH: "filter (\<lambda>pr. fst pr \<in> A) (find_duplicates_loop d hs' [])
              = fan (hs' h) (paths_with_hash h d)" for hs'
    using Cons by simp
  have pA: "(p \<in> A) = (hash i = h)" using Cons.prems e by simp
  show ?case
  proof (cases "hs (hash i)")
    case None
    then have "find_duplicates_loop (e # d) hs []
                 = find_duplicates_loop d (hs(hash i \<mapsto> p)) []"
      using e by simp
    then show ?thesis
      using IH[of "hs(hash i \<mapsto> p)"] e pA None
      by (auto simp: fan_def paths_with_hash_def split: option.splits list.splits)
  next
    case (Some f)
    have "find_duplicates_loop (e # d) hs [] = (p, f) # find_duplicates_loop d hs []"
      using Some e find_duplicates_loop_acc[of d hs "[(p, f)]"] by simp
    then show ?thesis
      using IH[of hs] e pA Some
      by (auto simp: fan_def paths_with_hash_def split: option.splits list.splits)
  qed
qed

text \<open>
  Every pair joins two different paths with one hash; the first is a key still to come, the
  second is a key or a path already stored in \<open>hashes\<close>. \<open>Hf\<close> gives the hash of a path.
\<close>

lemma find_duplicates_loop_pairs:
  assumes "distinct (map fst d)"
    and "\<forall>e \<in> set d. Hf (fst e) = Some (hash (snd e))"
    and "\<forall>k p. hs k = Some p \<longrightarrow> p \<notin> fst ` set d \<and> Hf p = Some k \<and> p \<in> S"
    and "fst ` set d \<subseteq> S"
  shows "\<forall>pr \<in> set (find_duplicates_loop d hs []).
           fst pr \<noteq> snd pr \<and> Hf (fst pr) = Hf (snd pr) \<and> fst pr \<in> fst ` set d \<and> snd pr \<in> S"
  using assms
proof (induction d arbitrary: hs)
  case Nil
  then show ?case by simp
next
  case (Cons e d hs)
  obtain p i where e: "e = (p, i)" by (cases e)
  have dist: "distinct (map fst d)" and pd: "p \<notin> fst ` set d"
    using Cons.prems(1) e by auto
  have Hd: "\<forall>e \<in> set d. Hf (fst e) = Some (hash (snd e))" and Hp: "Hf p = Some (hash i)"
    using Cons.prems(2) e by auto
  have S: "fst ` set d \<subseteq> S" and pS: "p \<in> S"
    using Cons.prems(4) e by auto
  show ?case
  proof (cases "hs (hash i)")
    case None
    define hs' where "hs' = hs(hash i \<mapsto> p)"
    have step: "find_duplicates_loop (e # d) hs [] = find_duplicates_loop d hs' []"
      using None e by (simp add: hs'_def)
    have inv: "\<forall>k q. hs' k = Some q \<longrightarrow> q \<notin> fst ` set d \<and> Hf q = Some k \<and> q \<in> S"
      using Cons.prems(3) pd Hp pS e by (auto simp: hs'_def)
    show ?thesis using Cons.IH[OF dist Hd inv S] step by auto
  next
    case (Some f)
    have step: "find_duplicates_loop (e # d) hs [] = (p, f) # find_duplicates_loop d hs []"
      using Some e find_duplicates_loop_acc[of d hs "[(p, f)]"] by simp
    have inv: "\<forall>k q. hs k = Some q \<longrightarrow> q \<notin> fst ` set d \<and> Hf q = Some k \<and> q \<in> S"
      using Cons.prems(3) by auto
    have f: "f \<noteq> p \<and> Hf f = Some (hash i) \<and> f \<in> S"
      using Cons.prems(3) Some e by auto
    show ?thesis using Cons.IH[OF dist Hd inv S] step f Hp e by auto
  qed
qed

lemma map_of_hash:
  "distinct (map fst d) \<Longrightarrow>
   \<forall>e \<in> set d. map_option hash (map_of d (fst e)) = Some (hash (snd e))"
  by auto

lemma paths_with_hash_set:
  "distinct (map fst d) \<Longrightarrow>
   set (paths_with_hash h d) = {p. map_option hash (map_of d p) = Some h}"
  by (force simp: paths_with_hash_def image_iff dest: map_of_SomeD)

lemma paths_with_hash_distinct:
  "distinct (map fst d) \<Longrightarrow> distinct (paths_with_hash h d)"
  unfolding paths_with_hash_def by (simp add: distinct_map_filter)

text \<open>
  Claim C2. In a dictionary whose paths with the hash \<open>h\<close> are, in iteration order,
  \<open>first_seen\<close> followed by \<open>later\<close> (so \<open>N = 1 + length later\<close>), the pairs returned by
  \<open>find_duplicates_from_info\<close> that mention any of these \<open>N\<close> paths are exactly the pairs
  \<open>(p, first_seen)\<close> for \<open>p\<close> in \<open>later\<close>, in that order: \<open>N - 1\<close> pairs, none of them between
  two later paths. When no other hash is shared, this is the whole result.
\<close>

theorem find_duplicates_fan:
  assumes "well_formed d" and "paths_with_hash h d = first_seen # later"
  shows "filter (\<lambda>pr. fst pr \<in> set (first_seen # later) \<or> snd pr \<in> set (first_seen # later))
           (find_duplicates_from_info d) = map (\<lambda>p. (p, first_seen)) later
       \<and> length (map (\<lambda>p. (p, first_seen)) later) = length (paths_with_hash h d) - 1
       \<and> first_seen \<notin> set later
       \<and> ((\<forall>k. k \<noteq> h \<longrightarrow> length (paths_with_hash k d) \<le> 1) \<longrightarrow>
            find_duplicates_from_info d = map (\<lambda>p. (p, first_seen)) later)"
proof -
  let ?A = "set (first_seen # later)"
  define Hf where "Hf = (\<lambda>p. map_option hash (map_of d p))"
  let ?res = "find_duplicates_from_info d"
  have dist: "distinct (map fst d)" using assms(1) by (simp add: well_formed_def)
  have Hf_d: "\<forall>e \<in> set d. Hf (fst e) = Some (hash (snd e))"
    using map_of_hash[OF dist] by (simp add: Hf_def)
  have Hf_set: "set (paths_with_hash k d) = {p. Hf p = Some k}" for k
    using paths_with_hash_set[OF dist, of k] by (simp add: Hf_def)
  have A: "?A = {p. Hf p = Some h}"
    using Hf_set[of h] assms(2) by simp
  have memA: "\<forall>e \<in> set d. (fst e \<in> ?A) = (hash (snd e) = h)"
    using Hf_d unfolding A by auto
  have fan: "filter (\<lambda>pr. fst pr \<in> ?A) ?res = map (\<lambda>p. (p, first_seen)) later"
    using find_duplicates_loop_fan[OF memA, of Map.empty] assms(2)
    by (simp add: find_duplicates_from_info_def fan_def)
  have pairs: "\<forall>pr \<in> set ?res. fst pr \<noteq> snd pr \<and> Hf (fst pr) = Hf (snd pr)
                 \<and> fst pr \<in> fst ` set d \<and> snd pr \<in> fst ` set d"
    unfolding find_duplicates_from_info_def
    by (rule find_duplicates_loop_pairs[OF dist Hf_d]) simp_all
  have same: "\<forall>pr \<in> set ?res. (snd pr \<in> ?A) = (fst pr \<in> ?A)"
    using pairs unfolding A by auto
  have "filter (\<lambda>pr. fst pr \<in> ?A \<or> snd pr \<in> ?A) ?res = filter (\<lambda>pr. fst pr \<in> ?A) ?res"
    by (rule filter_cong) (use same in auto)
  then have c1: "filter (\<lambda>pr. fst pr \<in> ?A \<or> snd pr \<in> ?A) ?res
                   = map (\<lambda>p. (p, first_seen)) later"
    using fan by simp
  have c2: "length (map (\<lambda>p. (p, first_seen)) later) = length (paths_with_hash h d) - 1"
    using assms(2) by simp
  have c3: "first_seen \<notin> set later"
    using paths_with_hash_distinct[OF dist, of h] assms(2) by simp
  have c4: "?res = map (\<lambda>p. (p, first_seen)) later"
    if uniq: "\<forall>k. k \<noteq> h \<longrightarrow> length (paths_with_hash k d) \<le> 1"
  proof -
    have "fst pr \<in> ?A" if pr: "pr \<in> set ?res" for pr
    proof (rule ccontr)
      assume notA: "fst pr \<notin> ?A"
      obtain k where k: "Hf (fst pr) = Some k"
        using pairs pr Hf_d by (force simp: image_iff)
      have kh: "k \<noteq> h" using notA k unfolding A by auto
      have "fst pr \<in> set (paths_with_hash k d)" "snd pr \<in> set (paths_with_hash k d)"
        using k pairs pr Hf_set[of k] by auto
      moreover have "fst pr \<noteq> snd pr" using pairs pr by auto
      ultimately have "card (set (paths_with_hash k d)) \<ge> 2"
        by (metis card_mono List.finite_set empty_subsetI insert_subset card_2_iff)
      then have "length (paths_with_hash k d) \<ge> 2"
        using card_length[of "paths_with_hash k d"] by linarith
      then show False using uniq kh by fastforce
    qed
    then have "filter (\<lambda>pr. fst pr \<in> ?A) ?res = ?res" by (simp add: filter_id_conv)
    then show ?thesis using fan by simp
  qed
  show ?thesis using c1 c2 c3 c4 by blast
qed

theorem find_duplicates_fan_witness:
  "well_formed example_dict
   \<and> paths_with_hash ''h1'' example_dict = ''/s/a.txt'' # [''/s/b.txt'', ''/s/c.txt'']
   \<and> find_duplicates_from_info example_dict
       = [(''/s/b.txt'', ''/s/a.txt''), (''/s/c.txt'', ''/s/a.txt'')]"
proof -
  have wf: "well_formed example_dict"
    by (simp add: well_formed_def example_dict_def)
  have ps: "paths_with_hash ''h1'' example_dict = ''/s/a.txt'' # [''/s/b.txt'', ''/s/c.txt'']"
    by (simp add: paths_with_hash_def example_dict_def example_info_def)
  have uniq: "\<forall>k. k \<noteq> ''h1'' \<longrightarrow> length (paths_with_hash k example_dict) \<le> 1"
    by (simp add: paths_with_hash_def example_dict_def example_info_def)
  show ?thesis
    using find_duplicates_fan[OF wf ps] uniq wf ps by simp
qed

section \<open>Fingerprinting and the workers\<close>

lemma file_hash_try_nodes:
  "nodes w' = nodes w \<Longrightarrow> file_hash_try lb w' p = file_hash_try lb w p"
  by (simp add: file_hash_try_def read_file_def)

lemma hash_result_nodes:
  "nodes w' = nodes w \<Longrightarrow> hash_result lb w' p = hash_result lb w p"
  using file_hash_try_nodes[of w' w lb p] by (simp add: hash_result_def)

lemma hash_events_nodes:
  "nodes w' = nodes w \<Longrightarrow> hash_events lb w' p = hash_events lb w p"
  using file_hash_try_nodes[of w' w lb p] by (simp add: hash_events_def)

lemma file_hash_eq:
  "file_hash lb p w =
     (hash_result lb w p,
      w\<lparr>out := out w @ hash_events lb w p, hash_calls := hash_calls w @ [p]\<rparr>)"
  by (simp add: file_hash_def hash_result_def hash_events_def emit_def Let_def
      split: sum.splits)

lemma run_workers_eq:
  "run_workers lb ps w =
     (map (\<lambda>p. (p, hash_result lb w p)) ps,
      w\<lparr>out := out w @ concat (map (hash_events lb w) ps),
        hash_calls := hash_calls w @ ps\<rparr>)"
proof (induction ps arbitrary: w)
  case Nil
  then show ?case by simp
next
  case (Cons p ps w)
  let ?w1 = "w\<lparr>out := out w @ hash_events lb w p, hash_calls := hash_calls w @ [p]\<rparr>"
  have n: "nodes ?w1 = nodes w" by simp
  show ?case
    by (simp add: file_hash_eq Cons.IH[of ?w1] hash_result_nodes[OF n] hash_events_nodes[OF n])
qed

lemma write_file_hash_calls:
  "write_file p s w = Inr w' \<Longrightarrow> hash_calls w' = hash_calls w"
  by (auto simp: write_file_def split: option.splits node.splits if_splits)

lemma collect_loop_hash_calls:
  "hash_calls (snd (collect_loop lb cfg tmp L d w)) = hash_calls w"
proof (induction L arbitrary: d w)
  case Nil
  then show ?case by simp
next
  case (Cons x L d w)
  obtain p r where x: "x = (p, r)" by (cases x)
  show ?case
    using Cons.IH
    by (auto simp: x dest: write_file_hash_calls split: sum.splits)
qed

text \<open>
  Claim C4. Whatever the temp file gave as loaded dictionary, the calls of \<open>file_hash\<close>
  that \<open>collect_file_info\<close> adds are for paths that are not keys of it; when every candidate
  path is a key, there is no call at all.
\<close>

theorem known_paths_not_fingerprinted:
  assumes "load_progress lb tmp w = Inr loaded"
  shows "\<exists>calls. hash_calls (snd (collect_file_info lb cfg completion dirs tmp w))
                    = hash_calls w @ calls
           \<and> set calls \<inter> fst ` set loaded = {}
           \<and> (set (collect_file_paths cfg w dirs) \<subseteq> fst ` set loaded \<longrightarrow> calls = [])"
proof -
  let ?pending = "pending_paths loaded (collect_file_paths cfg w dirs)"
  obtain futures w1 where rw: "run_workers lb ?pending w = (futures, w1)"
    by (cases "run_workers lb ?pending w")
  have hc1: "hash_calls w1 = hash_calls w @ ?pending"
    using rw by (auto simp: run_workers_eq)
  obtain r w2 where loop: "collect_loop lb cfg tmp (completion futures) loaded w1 = (r, w2)"
    by (cases "collect_loop lb cfg tmp (completion futures) loaded w1")
  have hc2: "hash_calls w2 = hash_calls w1"
    using collect_loop_hash_calls[of lb cfg tmp "completion futures" loaded w1] loop by simp
  have "hash_calls (snd (collect_file_info lb cfg completion dirs tmp w)) = hash_calls w2"
    using assms rw loop
    by (auto simp: collect_file_info_def Let_def dest: write_file_hash_calls split: sum.splits)
  then have a: "hash_calls (snd (collect_file_info lb cfg completion dirs tmp w))
                  = hash_calls w @ ?pending"
    using hc1 hc2 by simp
  have b: "set ?pending \<inter> fst ` set loaded = {}"
    by (auto simp: pending_paths_def)
  have c: "set (collect_file_paths cfg w dirs) \<subseteq> fst ` set loaded \<longrightarrow> ?pending = []"
    by (auto simp: pending_paths_def filter_empty_conv)
  show ?thesis using a b c by blast
qed

theorem known_paths_not_fingerprinted_witness:
  "load_progress example_lib ''/tmp/progress.json'' resume_world = Inr example_dict
   \<and> set (collect_file_paths example_config resume_world [''/s'']) \<subseteq> fst ` set example_dict
   \<and> hash_calls (snd (collect_file_info example_lib example_config rev [''/s'']
                        ''/tmp/progress.json'' resume_world)) = []"
proof -
  have ld: "load_progress example_lib ''/tmp/progress.json'' resume_world = Inr example_dict"
    by (simp add: load_progress_def resume_world_def os_path_exists_def read_file_def
        example_lib_def example_load_def example_fdata_def example_dump_def example_dict_def
        example_info_def)
  have ps: "collect_file_paths example_config resume_world [''/s'']
              = [''/s/a.txt'', ''/s/b.txt'', ''/s/c.txt'', ''/s/d.txt'']"
    by (simp add: collect_file_paths_def resume_world_def scan_world_def ignored_def
        example_config_def startswith_def os_path_join_def)
  have sub: "set (collect_file_paths example_config resume_world [''/s''])
               \<subseteq> fst ` set example_dict"
    unfolding ps by (simp add: example_dict_def)
  have hc: "hash_calls resume_world = []"
    by (simp add: resume_world_def scan_world_def)
  show ?thesis
    using known_paths_not_fingerprinted[OF ld, of example_config rev "[''/s'']"] ld sub hc
    by auto
qed

section \<open>Verification\<close>

lemma update_fresh: "k \<notin> fst ` set al \<Longrightarrow> AList.update k v al = al @ [(k, v)]"
  by (induction al) auto

text \<open>The loop of the verification, in closed form, for a dictionary with distinct keys.\<close>

lemma verify_loop_eq:
  assumes "distinct (map fst items)" and "fst ` set items \<inter> fst ` set v = {}"
    and "nodes w1 = nodes w0"
  shows "verify_loop lb items v w1 =
           (v @ filter (keeps lb w0) items,
            w1\<lparr>out := out w1 @ concat (map (verify_events lb w0) items),
               hash_calls := hash_calls w1 @ filter (os_path_exists w0) (map fst items)\<rparr>)"
  using assms
proof (induction items arbitrary: v w1)
  case Nil
  then show ?case by simp
next
  case (Cons e items v w1)
  obtain p info where e: "e = (p, info)" by (cases e)
  have dist: "distinct (map fst items)" and pi: "p \<notin> fst ` set items"
    and pv: "p \<notin> fst ` set v" and disj: "fst ` set items \<inter> fst ` set v = {}"
    using Cons.prems(1,2) e by auto
  have ex: "os_path_exists w1 p = os_path_exists w0 p"
    using Cons.prems(3) by (simp add: os_path_exists_def)
  have hr: "hash_result lb w1 p = hash_result lb w0 p"
    and he: "hash_events lb w1 p = hash_events lb w0 p"
    using hash_result_nodes[OF Cons.prems(3), of lb p]
      hash_events_nodes[OF Cons.prems(3), of lb p]
    by simp_all
  show ?case
  proof (cases "os_path_exists w0 p")
    case False
    let ?w2 = "emit [Log WARNING (''File not found: '' @ p)] w1"
    have n2: "nodes ?w2 = nodes w0" using Cons.prems(3) by (simp add: emit_def)
    show ?thesis
      using False ex e Cons.IH[OF dist disj n2]
      by (simp add: keeps_def verify_events_def emit_def)
  next
    case True
    let ?w2 = "w1\<lparr>out := out w1 @ hash_events lb w0 p, hash_calls := hash_calls w1 @ [p]\<rparr>"
    have fh: "file_hash lb p w1 = (hash_result lb w0 p, ?w2)"
      by (simp add: file_hash_eq hr he)
    show ?thesis
    proof (cases "hash_result lb w0 p = Some (hash info)")
      case same: True
      have n2: "nodes ?w2 = nodes w0" using Cons.prems(3) by simp
      have disj2: "fst ` set items \<inter> fst ` set (v @ [(p, info)]) = {}"
        using disj pi by auto
      show ?thesis
        using True ex e fh same Cons.IH[OF dist disj2 n2] update_fresh[OF pv, of info]
        by (simp add: keeps_def verify_events_def)
    next
      case diff: False
      let ?w3 = "emit [Log WARNING (''File hash changed: '' @ p)] ?w2"
      have n3: "nodes ?w3 = nodes w0" using Cons.prems(3) by (simp add: emit_def)
      show ?thesis
        using True ex e fh diff Cons.IH[OF dist disj n3]
        by (simp add: keeps_def verify_events_def emit_def)
    qed
  qed
qed

lemma verify_file_info_eq:
  assumes "well_formed d"
  shows "verify_file_info lb d w =
           (filter (keeps lb w) d,
            w\<lparr>out := out w @ concat (map (verify_events lb w) d),
              hash_calls := hash_calls w @ filter (os_path_exists w) (map fst d)\<rparr>)"
  using verify_loop_eq[of d "[]" w w lb] assms
  by (simp add: verify_file_info_def well_formed_def)

lemma not_found_event:
  assumes "distinct (map fst d)" and "(p, info) \<in> set d"
  shows "Log WARNING (''File not found: '' @ p) \<in> set (concat (map (verify_events lb w) d))
           \<longleftrightarrow> \<not> os_path_exists w p"
proof
  assume "Log WARNING (''File not found: '' @ p) \<in> set (concat (map (verify_events lb w) d))"
  then obtain e where e: "e \<in> set d"
    and ev: "Log WARNING (''File not found: '' @ p) \<in> set (verify_events lb w e)"
    by auto
  have "fst e = p \<and> \<not> os_path_exists w (fst e)"
    using ev by (auto simp: verify_events_def hash_events_def split: if_splits sum.splits)
  then show "\<not> os_path_exists w p" by auto
next
  assume "\<not> os_path_exists w p"
  then have "Log WARNING (''File not found: '' @ p) \<in> set (verify_events lb w (p, info))"
    by (simp add: verify_events_def)
  then show "Log WARNING (''File not found: '' @ p)
               \<in> set (concat (map (verify_events lb w) d))"
    using assms(2) by force
qed

lemma hash_changed_event:
  assumes "distinct (map fst d)" and "(p, info) \<in> set d"
  shows "Log WARNING (''File hash changed: '' @ p) \<in> set (concat (map (verify_events lb w) d))
           \<longleftrightarrow> os_path_exists w p \<and> hash_result lb w p \<noteq> Some (hash info)"
proof
  assume "Log WARNING (''File hash changed: '' @ p)
            \<in> set (concat (map (verify_events lb w) d))"
  then obtain e where e: "e \<in> set d"
    and ev: "Log WARNING (''File hash changed: '' @ p) \<in> set (verify_events lb w e)"
    by auto
  have f: "fst e = p \<and> os_path_exists w (fst e)
             \<and> hash_result lb w (fst e) \<noteq> Some (hash (snd e))"
    using ev by (auto simp: verify_events_def hash_events_def split: if_splits sum.splits)
  then have "e = (p, info)"
    using assms e by (metis eq_key_imp_eq_value prod.collapse)
  then show "os_path_exists w p \<and> hash_result lb w p \<noteq> Some (hash info)"
    using f by auto
next
  assume "os_path_exists w p \<and> hash_result lb w p \<noteq> Some (hash info)"
  then have "Log WARNING (''File hash changed: '' @ p) \<in> set (verify_events lb w (p, info))"
    by (simp add: verify_events_def)
  then show "Log WARNING (''File hash changed: '' @ p)
               \<in> set (concat (map (verify_events lb w) d))"
    using assms(2) by force
qed

text \<open>
  Claim C5. For a dictionary with distinct keys, \<open>verify_file_info\<close> returns exactly the
  records, in order, whose path exists and whose hash computed now equals the stored one,
  and leaves the file system as it was. Among the events it adds, a record has the warning
  \<open>File not found\<close> exactly when its path does not exist and the warning
  \<open>File hash changed\<close> exactly when the path exists and the hash differs; so a dropped
  record has one of the two and never both.
\<close>

theorem verify_file_info_exact:
  assumes "well_formed d"
  shows "fst (verify_file_info lb d w)
           = filter (\<lambda>e. os_path_exists w (fst e)
                          \<and> fst (file_hash lb (fst e) w) = Some (hash (snd e))) d
       \<and> nodes (snd (verify_file_info lb d w)) = nodes w
       \<and> (\<exists>report. out (snd (verify_file_info lb d w)) = out w @ report
            \<and> (\<forall>e \<in> set d.
                  (Log WARNING (''File not found: '' @ fst e) \<in> set report
                     \<longleftrightarrow> \<not> os_path_exists w (fst e))
                \<and> (Log WARNING (''File hash changed: '' @ fst e) \<in> set report
                     \<longleftrightarrow> os_path_exists w (fst e)
                          \<and> fst (file_hash lb (fst e) w) \<noteq> Some (hash (snd e)))))"
proof -
  have dist: "distinct (map fst d)" using assms by (simp add: well_formed_def)
  have k: "keeps lb w = (\<lambda>e. os_path_exists w (fst e)
                          \<and> fst (file_hash lb (fst e) w) = Some (hash (snd e)))"
    by (simp add: keeps_def file_hash_eq fun_eq_iff)
  let ?report = "concat (map (verify_events lb w) d)"
  have a: "fst (verify_file_info lb d w)
           = filter (\<lambda>e. os_path_exists w (fst e)
                          \<and> fst (file_hash lb (fst e) w) = Some (hash (snd e))) d"
    using verify_file_info_eq[OF assms, of lb w] k by simp
  have b: "nodes (snd (verify_file_info lb d w)) = nodes w"
    by (simp add: verify_file_info_eq[OF assms])
  have c: "out (snd (verify_file_info lb d w)) = out w @ ?report"
    by (simp add: verify_file_info_eq[OF assms])
  have r: "\<forall>e \<in> set d.
             (Log WARNING (''File not found: '' @ fst e) \<in> set ?report
                 \<longleftrightarrow> \<not> os_path_exists w (fst e))
           \<and> (Log WARNING (''File hash changed: '' @ fst e) \<in> set ?report
                 \<longleftrightarrow> os_path_exists w (fst e)
                      \<and> fst (file_hash lb (fst e) w) \<noteq> Some (hash (snd e)))"
  proof
    fix e assume e: "e \<in> set d"
    then have e': "(fst e, snd e) \<in> set d" by simp
    show "(Log WARNING (''File not found: '' @ fst e) \<in> set ?report
                 \<longleftrightarrow> \<not> os_path_exists w (fst e))
           \<and> (Log WARNING (''File hash changed: '' @ fst e) \<in> set ?report
                 \<longleftrightarrow> os_path_exists w (fst e)
                      \<and> fst (file_hash lb (fst e) w) \<noteq> Some (hash (snd e)))"
      using not_found_event[OF dist e', of lb w] hash_changed_event[OF dist e', of lb w]
      by (simp add: file_hash_eq)
  qed
  show ?thesis using a b c r by blast
qed

theorem verify_file_info_exact_witness:
  "well_formed verify_dict
   \<and> fst (verify_file_info example_lib verify_dict verify_world)
       = [(''/s/a.txt'', example_info ''a.txt'' ''xxsame'')]
   \<and> \<not> os_path_exists verify_world ''/s/b.txt''
   \<and> os_path_exists verify_world ''/s/c.txt''
   \<and> fst (file_hash example_lib ''/s/c.txt'' verify_world) \<noteq> Some ''xxold''"
proof -
  have a: "well_formed verify_dict" by (simp add: well_formed_def verify_dict_def)
  have f: "filter (\<lambda>e. os_path_exists verify_world (fst e)
                  \<and> fst (file_hash example_lib (fst e) verify_world) = Some (hash (snd e)))
             verify_dict = [(''/s/a.txt'', example_info ''a.txt'' ''xxsame'')]"
    by (simp add: verify_dict_def verify_world_def os_path_exists_def
      file_hash_def file_hash_try_def read_file_def example_lib_def example_fdata_def
      example_info_def emit_def Let_def)
  have b: "\<not> os_path_exists verify_world ''/s/b.txt''"
    by (simp add: verify_world_def os_path_exists_def)
  have c: "os_path_exists verify_world ''/s/c.txt''"
    by (simp add: verify_world_def os_path_exists_def)
  have d: "fst (file_hash example_lib ''/s/c.txt'' verify_world) \<noteq> Some ''xxold''"
    by (simp add: verify_world_def file_hash_def file_hash_try_def read_file_def
        example_lib_def example_fdata_def Let_def)
  show ?thesis
    using verify_file_info_exact[OF a, of example_lib verify_world] a f b c d by simp
qed

text \<open>
  Claim C10. A record whose path names an existing file that cannot be read gets \<open>None\<close>
  from \<open>file_hash\<close>, is not in the dictionary \<open>verify_file_info\<close> returns, and is reported
  with the warning \<open>File hash changed\<close> and not with \<open>File not found\<close>.
\<close>

theorem verify_unreadable_file:
  assumes "well_formed d" and "(p, info) \<in> set d"
    and "nodes w p = Some (File f)" and "\<not> readable f"
  shows "fst (file_hash lb p w) = None
       \<and> p \<notin> fst ` set (fst (verify_file_info lb d w))
       \<and> (\<exists>report. out (snd (verify_file_info lb d w)) = out w @ report
             \<and> Log WARNING (''File hash changed: '' @ p) \<in> set report
             \<and> Log WARNING (''File not found: '' @ p) \<notin> set report)"
proof -
  have dist: "distinct (map fst d)" using assms(1) by (simp add: well_formed_def)
  have ex: "os_path_exists w p" using assms(3) by (simp add: os_path_exists_def)
  have hr: "hash_result lb w p = None"
    using assms(3,4) by (simp add: hash_result_def file_hash_try_def read_file_def)
  have a: "fst (file_hash lb p w) = None" using hr by (simp add: file_hash_eq)
  have "\<not> keeps lb w e" if "e \<in> set d" "fst e = p" for e
    using that hr by (simp add: keeps_def)
  then have b: "p \<notin> fst ` set (fst (verify_file_info lb d w))"
    by (auto simp: verify_file_info_eq[OF assms(1)])
  let ?report = "concat (map (verify_events lb w) d)"
  have c: "out (snd (verify_file_info lb d w)) = out w @ ?report"
    by (simp add: verify_file_info_eq[OF assms(1)])
  have d1: "Log WARNING (''File hash changed: '' @ p) \<in> set ?report"
    using hash_changed_event[OF dist assms(2), of lb w] ex hr by simp
  have d2: "Log WARNING (''File not found: '' @ p) \<notin> set ?report"
    using not_found_event[OF dist assms(2), of lb w] ex by simp
  show ?thesis using a b c d1 d2 by blast
qed

theorem verify_unreadable_file_witness:
  "well_formed verify_dict
   \<and> (''/s/d.txt'', example_info ''d.txt'' ''xxsecret'') \<in> set verify_dict
   \<and> nodes verify_world ''/s/d.txt'' = Some (File (example_fdata ''secret'' False))
   \<and> \<not> readable (example_fdata ''secret'' False)
   \<and> ''/s/d.txt'' \<notin> fst ` set (fst (verify_file_info example_lib verify_dict verify_world))"
proof -
  have a: "well_formed verify_dict" by (simp add: well_formed_def verify_dict_def)
  have b: "(''/s/d.txt'', example_info ''d.txt'' ''xxsecret'') \<in> set verify_dict"
    by (simp add: verify_dict_def)
  have c: "nodes verify_world ''/s/d.txt'' = Some (File (example_fdata ''secret'' False))"
    by (simp add: verify_world_def)
  have d: "\<not> readable (example_fdata ''secret'' False)" by (simp add: example_fdata_def)
  show ?thesis
    using verify_unreadable_file[OF a b c d, of example_lib] a b c d by blast
qed

section \<open>Saving a report into a directory\<close>

lemma join_default_neq:
  "os_path_join output_file ''file_info_report.json'' \<noteq> output_file"
  by (simp add: os_path_join_def startswith_def)

text \<open>
  Claim C8, as stated, fails where the default name inside the directory cannot be opened
  for writing: \<open>/out\<close> is a directory and \<open>/out/file_info_report.json\<close> is a directory too,
  and the call ends with the exception of \<open>open\<close>, nothing written.
\<close>

theorem save_file_info_directory_crash:
  "os_path_isdir (save_world True) ''/out''
   \<and> fst (save_file_info example_lib example_dict ''/out'' (save_world True))
       = Inl IsADirectoryError
   \<and> nodes (snd (save_file_info example_lib example_dict ''/out'' (save_world True)))
       = nodes (save_world True)"
  by (simp add: save_file_info_def save_world_def os_path_isdir_def os_path_join_def
      startswith_def write_file_def print_and_log_def emit_def)

text \<open>
  Claim C8, amended. When \<open>output_file\<close> is an existing directory, \<open>save_file_info\<close> prints
  the message and logs it at level \<open>ERROR\<close>, leaves the directory in place and turns to
  \<open>file_info_report.json\<close> inside it. When that path is no directory and may be written, the
  call returns normally, the file holds the dump of the dictionary and nothing else
  changes. When that path is a directory or may not be written, the call raises the
  exception of \<open>open\<close>.
\<close>

theorem save_file_info_directory:
  assumes "os_path_isdir w output_file"
    and "target = os_path_join output_file ''file_info_report.json''"
    and "msg = ''Error: '' @ output_file
                 @ '' is a directory. Saving to default file 'file_info_report.json'.''"
  shows "out (snd (save_file_info lb d output_file w)) = out w @ [Print msg, Log ERROR msg]
       \<and> nodes (snd (save_file_info lb d output_file w)) output_file = Some Dir
       \<and> (\<not> os_path_isdir w target \<and> \<not> write_denied w target \<longrightarrow>
            fst (save_file_info lb d output_file w) = Inr ()
            \<and> (\<exists>f. nodes (snd (save_file_info lb d output_file w)) target = Some (File f)
                   \<and> content f = json_dump lb d)
            \<and> (\<forall>p. p \<noteq> target \<longrightarrow>
                   nodes (snd (save_file_info lb d output_file w)) p = nodes w p))
       \<and> (os_path_isdir w target \<longrightarrow>
            fst (save_file_info lb d output_file w) = Inl IsADirectoryError)
       \<and> (\<not> os_path_isdir w target \<and> write_denied w target \<longrightarrow>
            fst (save_file_info lb d output_file w) = Inl PermissionError)"
  using assms join_default_neq[of output_file]
  by (auto simp: save_file_info_def os_path_isdir_def write_file_def print_and_log_def emit_def
      split: option.splits node.splits)

theorem save_file_info_directory_witness:
  "os_path_isdir (save_world False) ''/out''
   \<and> \<not> os_path_isdir (save_world False) ''/out/file_info_report.json''
   \<and> \<not> write_denied (save_world False) ''/out/file_info_report.json''
   \<and> fst (save_file_info example_lib example_dict ''/out'' (save_world False)) = Inr ()
   \<and> (\<exists>f. nodes (snd (save_file_info example_lib example_dict ''/out'' (save_world False)))
             ''/out/file_info_report.json'' = Some (File f)
          \<and> content f = json_dump example_lib example_dict)"
proof -
  have a: "os_path_isdir (save_world False) ''/out''"
    by (simp add: save_world_def os_path_isdir_def)
  have t: "''/out/file_info_report.json'' = os_path_join ''/out'' ''file_info_report.json''"
    by (simp add: os_path_join_def startswith_def)
  have b: "\<not> os_path_isdir (save_world False) ''/out/file_info_report.json''"
    by (simp add: save_world_def os_path_isdir_def)
  have c: "\<not> write_denied (save_world False) ''/out/file_info_report.json''"
    by (simp add: save_world_def)
  show ?thesis
    using save_file_info_directory[OF a t refl, of example_lib example_dict] a b c
    by blast
qed

section \<open>The dialogue\<close>

text \<open>
  Claim C1 is not met by the code. The reply \<open>D\<close> is lowered to \<open>d\<close> and the reply \<open>M\<close>
  to \<open>m\<close>, and the branches for the second member repeat the tests of the branches for the
  first: in the individual mode the reply \<open>D\<close> removes the first member of the pair and
  keeps the second, and the reply \<open>M\<close> moves the first member and keeps the second.
\<close>

theorem individual_second_member_unreachable:
  "(case handle_duplicates example_groups (resolve_world [''i'', ''D'']) of
      (r, w) \<Rightarrow> r = Inr () \<and> stdin w = []
        \<and> nodes w ''/d/b.txt'' = None
        \<and> nodes w ''/e/a.txt'' = Some (File (example_fdata ''x'' True)))
   \<and> (case handle_duplicates example_groups (resolve_world [''i'', ''M'', ''/bin'']) of
      (r, w) \<Rightarrow> r = Inr () \<and> stdin w = []
        \<and> nodes w ''/d/b.txt'' = None
        \<and> nodes w ''/bin/b.txt'' = Some (File (example_fdata ''x'' True))
        \<and> nodes w ''/e/a.txt'' = Some (File (example_fdata ''x'' True)))"
  by code_simp

text \<open>
  Claim C6. A reply to the question for a directory that, stripped and lowered, is none of
  \<open>s\<close>, \<open>d\<close>, \<open>m\<close>, \<open>i\<close> makes \<open>handle_group\<close> log that the directory is skipped, ask nothing
  more and leave the file system as it was. A reply to the question for a pair that is
  neither \<open>d\<close> nor \<open>m\<close> makes \<open>handle_pair\<close> log that both files are kept and leave the file
  system as it was.
\<close>

theorem unrecognized_input_no_mutation:
  assumes "stdin w = raw # rest"
  shows "(lower (strip raw) \<notin> {''s'', ''d'', ''m'', ''i''} \<longrightarrow>
            (\<exists>w'. handle_group g w = (Inr (), w') \<and> nodes w' = nodes w
               \<and> journal w' = journal w \<and> stdin w' = rest
               \<and> Log INFO (''Invalid action. Skipping directory: '' @ fst g) \<in> set (out w')))
       \<and> (lower (strip raw) \<notin> {''d'', ''m''} \<longrightarrow>
            (\<exists>w'. handle_pair dup w = (Inr (), w') \<and> nodes w' = nodes w
               \<and> journal w' = journal w \<and> stdin w' = rest
               \<and> Log INFO (''Keeping both files: '' @ fst dup @ '' and '' @ snd dup)
                    \<in> set (out w')))"
  using assms
  by (simp add: handle_group_def handle_pair_def py_input_def emit_def Let_def)

theorem unrecognized_input_no_mutation_witness:
  "stdin (resolve_world [''x'', ''y'']) = ''x'' # [''y'']
   \<and> lower (strip ''x'') \<notin> {''s'', ''d'', ''m'', ''i''}
   \<and> lower (strip ''x'') \<notin> {''d'', ''m''}
   \<and> (\<exists>w'. handle_group (''/d'', [(''/d/b.txt'', ''/e/a.txt'')]) (resolve_world [''x'', ''y''])
              = (Inr (), w')
          \<and> nodes w' = nodes (resolve_world [''x'', ''y'']))
   \<and> (\<exists>w'. handle_pair (''/d/b.txt'', ''/e/a.txt'') (resolve_world [''x'', ''y''])
              = (Inr (), w')
          \<and> nodes w' = nodes (resolve_world [''x'', ''y'']))"
proof -
  have a: "stdin (resolve_world [''x'', ''y'']) = ''x'' # [''y'']"
    by (simp add: resolve_world_def)
  have b: "lower (strip ''x'') \<notin> {''s'', ''d'', ''m'', ''i''}" by code_simp
  have c: "lower (strip ''x'') \<notin> {''d'', ''m''}" by code_simp
  show ?thesis
    using unrecognized_input_no_mutation[OF a,
        of "(''/d'', [(''/d/b.txt'', ''/e/a.txt'')])" "(''/d/b.txt'', ''/e/a.txt'')"] a b c
    by blast
qed

section \<open>The loop of the collection\<close>

lemma write_file_Inr:
  assumes "write_file p s w = Inr w1"
  shows "journal w1 = journal w @ [(p, s)]"
    and "\<exists>f. nodes w1 p = Some (File f) \<and> content f = s"
    and "can_write w p"
    and "can_write w1 p"
  using assms
  by (auto simp: write_file_def can_write_def split: option.splits node.splits if_splits)

lemma write_file_can:
  "can_write w p \<Longrightarrow> \<exists>w1. write_file p s w = Inr w1"
  by (auto simp: can_write_def write_file_def split: option.splits node.splits)

lemma merge_given_Inr: "merge_given c d = Inr d1 \<Longrightarrow> d1 = merged_given c d"
  by (simp add: merged_given_def)

lemma merge_given_mergeable: "merge_given c d = Inr d1 \<Longrightarrow> mergeable c"
  by (auto simp: merge_given_def mergeable_def split: if_splits sum.splits)

lemma mergeable_merge_given: "mergeable c \<Longrightarrow> merge_given c d = Inr (merged_given c d)"
  by (auto simp: merge_given_def mergeable_def merged_given_def split: sum.splits)


lemma working_mapping_Cons:
  "working_mapping (c # E) d (Suc i) = working_mapping E (merged_given c d) i"
  by (simp add: working_mapping_def)

lemma working_mapping_0: "working_mapping E d 0 = d"
  by (simp add: working_mapping_def)

lemma upt_shift: "[1..<Suc (Suc n)] = 1 # map Suc [1..<Suc n]"
  by (simp add: upt_conv_Cons map_Suc_upt del: upt_Suc)

lemma periodic_saves_Cons:
  "periodic_saves lb cfg tmp (c # E) d =
     (if save_interval cfg dvd int (length (merged_given c d))
      then [(tmp, json_dump lb (merged_given c d))] else [])
     @ periodic_saves lb cfg tmp E (merged_given c d)"
proof -
  have sh: "[1..<Suc (length (c # E))] = 1 # map Suc [1..<Suc (length E)]"
    using upt_shift[of "length E"] by simp
  show ?thesis
    unfolding periodic_saves_def sh
    by (simp add: filter_map comp_def working_mapping_Cons working_mapping_0 del: upt_Suc)
qed

lemma collect_loop_open_Cons:
  assumes "collect_loop_open lb cfg tmp (c # E) d w = (Inr d', w')"
  shows "save_interval cfg \<noteq> 0 \<and> merge_given c d = Inr (merged_given c d)
       \<and> ((save_interval cfg dvd int (length (merged_given c d))
            \<and> (\<exists>w1. write_file tmp (json_dump lb (merged_given c d)) w = Inr w1
                 \<and> collect_loop_open lb cfg tmp E (merged_given c d) w1 = (Inr d', w')))
          \<or> (\<not> save_interval cfg dvd int (length (merged_given c d))
            \<and> collect_loop_open lb cfg tmp E (merged_given c d) w = (Inr d', w')))"
proof -
  from assms obtain d1 where m: "merge_given c d = Inr d1"
    by (auto split: sum.splits)
  have d1: "d1 = merged_given c d" by (rule merge_given_Inr[OF m])
  show ?thesis
    using assms m unfolding d1
    by (auto simp: dvd_eq_mod_eq_0 split: if_splits sum.splits)
qed

lemma collect_loop_open_returns:
  assumes "collect_loop_open lb cfg tmp E d w = (Inr d', w')"
  shows "d' = working_mapping E d (length E)
       \<and> journal w' = journal w @ periodic_saves lb cfg tmp E d"
  using assms
proof (induction E arbitrary: d w)
  case Nil
  then show ?case by (simp add: working_mapping_def periodic_saves_def)
next
  case (Cons c E d w)
  let ?d1 = "merged_given c d"
  note step = collect_loop_open_Cons[OF Cons.prems]
  show ?case
  proof (cases "save_interval cfg dvd int (length ?d1)")
    case True
    then obtain w1 where wr: "write_file tmp (json_dump lb ?d1) w = Inr w1"
      and rest: "collect_loop_open lb cfg tmp E ?d1 w1 = (Inr d', w')"
      using step by blast
    have j1: "journal w1 = journal w @ [(tmp, json_dump lb ?d1)]"
      by (rule write_file_Inr(1)[OF wr])
    from Cons.IH[OF rest] have "d' = working_mapping E ?d1 (length E)"
      and "journal w' = journal w1 @ periodic_saves lb cfg tmp E ?d1" by simp_all
    then show ?thesis
      using True j1 by (simp add: working_mapping_Cons periodic_saves_Cons)
  next
    case False
    then have rest: "collect_loop_open lb cfg tmp E ?d1 w = (Inr d', w')"
      using step by blast
    from Cons.IH[OF rest] have "d' = working_mapping E ?d1 (length E)"
      and "journal w' = journal w @ periodic_saves lb cfg tmp E ?d1" by simp_all
    then show ?thesis
      using False by (simp add: working_mapping_Cons periodic_saves_Cons)
  qed
qed



lemma collect_file_info_open_returns:
  assumes "load_progress lb tmp w = Inr loaded"
    and "collect_file_info_open lb cfg arrivals dirs tmp w = (Inr d, w')"
  shows "\<exists>w2. collect_loop_open lb cfg tmp (arrivals (submitted cfg w dirs loaded)) loaded w
                 = (Inr d, w2)
              \<and> write_file tmp (json_dump lb d) w2 = Inr w'"
  using assms
  by (auto simp: collect_file_info_open_def submitted_def Let_def
      split: prod.splits sum.splits)

lemma hash_result_Some:
  "hash_result lb w p = Some h \<Longrightarrow>
     \<exists>f. nodes w p = Some (File f) \<and> readable f \<and> content f \<noteq> []"
  by (auto simp: hash_result_def file_hash_try_def read_file_def
      split: sum.splits option.splits node.splits if_splits)

lemma truthy_hash_result:
  "truthy (hash_result lb w p) \<Longrightarrow> nodes w p \<noteq> None \<and> \<not> empty_file w p"
  using hash_result_Some[of lb w p]
  by (auto simp: truthy_def empty_file_def split: option.splits)

lemma completion_set:
  assumes "\<And>fs. mset (completion fs) = mset fs"
  shows "set (completion fs) = set fs"
  using assms[of fs] by (rule mset_eq_setD)

lemma collect_file_info_unfold:
  assumes "load_progress lb tmp w = Inr loaded"
  shows "collect_file_info lb cfg completion dirs tmp w =
     (let pending = pending_paths loaded (collect_file_paths cfg w dirs);
          w1 = w\<lparr>out := out w @ concat (map (hash_events lb w) pending),
                 hash_calls := hash_calls w @ pending\<rparr>
      in case collect_loop lb cfg tmp
                (completion (map (\<lambda>p. (p, hash_result lb w p)) pending)) loaded w1 of
           (Inl e, w2) \<Rightarrow> (Inl e, w2)
         | (Inr d, w2) \<Rightarrow>
             (case write_file tmp (json_dump lb d) w2 of
                Inl e \<Rightarrow> (Inl e, w2)
              | Inr w3 \<Rightarrow> (Inr d, w3)))"
  using assms by (simp add: collect_file_info_def run_workers_eq Let_def)


lemma merge_result_cases:
  "merge_result w p r d = Inr d1 \<Longrightarrow>
     (truthy r \<and> (\<exists>v. d1 = AList.update p v d)) \<or> (\<not> truthy r \<and> d1 = d)"
  by (auto simp: merge_result_def split: if_splits sum.splits)

lemma merge_result_keys:
  assumes "merge_result w p r d = Inr d1"
  shows "fst ` set d1 \<subseteq> fst ` set d \<union> (if truthy r then {p} else {})"
proof -
  have "fst ` set (AList.update p v d) \<subseteq> fst ` set d \<union> {p}" for v
    unfolding dom_update by blast
  then show ?thesis using merge_result_cases[OF assms] by auto
qed

lemma collect_loop_keys:
  "fst (collect_loop lb cfg tmp L d w) = Inr d' \<Longrightarrow>
     fst ` set d' \<subseteq> fst ` set d \<union> {p. \<exists>r. (p, r) \<in> set L \<and> truthy r}"
proof (induction L arbitrary: d w)
  case Nil
  then show ?case by simp
next
  case (Cons x L d w)
  obtain p r where x: "x = (p, r)" by (cases x)
  from Cons.prems obtain d1 w1 where m: "merge_result w p r d = Inr d1"
    and rest: "fst (collect_loop lb cfg tmp L d1 w1) = Inr d'"
    by (auto simp: x split: sum.splits if_splits)
  have k1: "fst ` set d1 \<subseteq> fst ` set d \<union> (if truthy r then {p} else {})"
    by (rule merge_result_keys[OF m])
  have k2: "fst ` set d' \<subseteq> fst ` set d1 \<union> {p. \<exists>r. (p, r) \<in> set L \<and> truthy r}"
    by (rule Cons.IH[OF rest])
  show ?case
  proof
    fix q assume "q \<in> fst ` set d'"
    then have "q \<in> fst ` set d1 \<or> (\<exists>r. (q, r) \<in> set L \<and> truthy r)" using k2 by auto
    then show "q \<in> fst ` set d \<union> {p. \<exists>r. (p, r) \<in> set (x # L) \<and> truthy r}"
      using k1 x by (auto split: if_splits)
  qed
qed

lemma find_duplicates_loop_members:
  "\<forall>pr \<in> set (find_duplicates_loop d hs acc).
      pr \<in> set acc \<or> (fst pr \<in> fst ` set d \<and> snd pr \<in> fst ` set d \<union> ran hs)"
proof (induction d arbitrary: hs acc)
  case Nil
  then show ?case by simp
next
  case (Cons e d hs acc)
  obtain p i where e: "e = (p, i)" by (cases e)
  show ?case
  proof (cases "hs (hash i)")
    case None
    define hs' where "hs' = hs(hash i \<mapsto> p)"
    have step: "find_duplicates_loop (e # d) hs acc = find_duplicates_loop d hs' acc"
      using None e by (simp add: hs'_def)
    have r: "ran hs' \<subseteq> insert p (ran hs)"
      by (auto simp: hs'_def ran_def)
    show ?thesis
    proof
      fix pr assume "pr \<in> set (find_duplicates_loop (e # d) hs acc)"
      then have "pr \<in> set acc \<or> (fst pr \<in> fst ` set d \<and> snd pr \<in> fst ` set d \<union> ran hs')"
        using Cons.IH[of hs' acc] step by simp
      then show "pr \<in> set acc
                   \<or> (fst pr \<in> fst ` set (e # d) \<and> snd pr \<in> fst ` set (e # d) \<union> ran hs)"
        using r e by auto
    qed
  next
    case (Some f)
    have step: "find_duplicates_loop (e # d) hs acc
                  = find_duplicates_loop d hs (acc @ [(p, f)])"
      using Some e by simp
    have r: "f \<in> ran hs" using Some by (auto simp: ran_def)
    show ?thesis
    proof
      fix pr assume "pr \<in> set (find_duplicates_loop (e # d) hs acc)"
      then have "pr \<in> set (acc @ [(p, f)])
                   \<or> (fst pr \<in> fst ` set d \<and> snd pr \<in> fst ` set d \<union> ran hs)"
        using Cons.IH[of hs "acc @ [(p, f)]"] step by simp
      then show "pr \<in> set acc
                   \<or> (fst pr \<in> fst ` set (e # d) \<and> snd pr \<in> fst ` set (e # d) \<union> ran hs)"
        using r e by auto
    qed
  qed
qed

lemma find_duplicates_members:
  "pr \<in> set (find_duplicates_from_info d) \<Longrightarrow> fst pr \<in> fst ` set d \<and> snd pr \<in> fst ` set d"
  using find_duplicates_loop_members[of d Map.empty "[]"]
  by (auto simp: find_duplicates_from_info_def)

text \<open>
  Claim C9, as stated, fails for files that were emptied after an earlier run recorded
  them: the temp file lists \<open>/s/c.txt\<close> and \<open>/s/d.txt\<close> with one hash, both are empty
  now, the run does not hash them again, and they are reported as a pair.
\<close>

theorem empty_files_reported_from_stale_progress:
  "empty_file stale_world ''/s/c.txt'' \<and> empty_file stale_world ''/s/d.txt''
   \<and> fst (collect_file_info example_lib example_config rev [''/s''] ''/tmp/progress.json''
             stale_world) = Inr stale_result
   \<and> find_duplicates_from_info stale_result
       = [(''/s/d.txt'', ''/s/c.txt''), (''/s/a.txt'', ''/s/b.txt'')]"
  by code_simp

text \<open>
  Claim C9, amended. \<open>file_hash\<close> returns \<open>None\<close> for a file of length zero. In the dictionary that
  \<open>collect_file_info\<close> returns, a path of an empty file can only be a key that the loaded
  temp file had already: the run adds none. The same holds for both members of every pair
  that \<open>find_duplicates_from_info\<close> reports on this dictionary; after a run that started
  without a temp file, no member of a reported pair is an empty file.
\<close>

theorem empty_files_never_added:
  assumes "\<And>fs. mset (completion fs) = mset fs"
    and "load_progress lb tmp w = Inr loaded"
    and "fst (collect_file_info lb cfg completion dirs tmp w) = Inr d"
  shows "(\<forall>p. empty_file w p \<longrightarrow> fst (file_hash lb p w) = None)
       \<and> (\<forall>p \<in> fst ` set d. empty_file w p \<longrightarrow> p \<in> fst ` set loaded)
       \<and> (\<forall>pr \<in> set (find_duplicates_from_info d).
             (empty_file w (fst pr) \<longrightarrow> fst pr \<in> fst ` set loaded)
           \<and> (empty_file w (snd pr) \<longrightarrow> snd pr \<in> fst ` set loaded))
       \<and> (\<not> os_path_exists w tmp \<longrightarrow>
            (\<forall>pr \<in> set (find_duplicates_from_info d).
               \<not> empty_file w (fst pr) \<and> \<not> empty_file w (snd pr)))"
proof -
  define pending where "pending = pending_paths loaded (collect_file_paths cfg w dirs)"
  define w1 where "w1 = w\<lparr>out := out w @ concat (map (hash_events lb w) pending),
                          hash_calls := hash_calls w @ pending\<rparr>"
  define L where "L = completion (map (\<lambda>p. (p, hash_result lb w p)) pending)"
  have a: "\<forall>p. empty_file w p \<longrightarrow> fst (file_hash lb p w) = None"
    by (auto simp: file_hash_eq hash_result_def file_hash_try_def read_file_def empty_file_def
        split: option.splits node.splits sum.splits)
  have setL: "set L = set (map (\<lambda>p. (p, hash_result lb w p)) pending)"
    unfolding L_def by (rule completion_set[OF assms(1)])
  have loop: "fst (collect_loop lb cfg tmp L loaded w1) = Inr d"
    using assms(3)
    by (auto simp: collect_file_info_unfold[OF assms(2)] Let_def pending_def[symmetric]
        w1_def[symmetric] L_def[symmetric] split: prod.splits sum.splits)
  have keys: "fst ` set d \<subseteq> fst ` set loaded \<union> {p. \<exists>r. (p, r) \<in> set L \<and> truthy r}"
    by (rule collect_loop_keys[OF loop])
  have b: "\<forall>p \<in> fst ` set d. empty_file w p \<longrightarrow> p \<in> fst ` set loaded"
  proof (intro ballI impI)
    fix p assume p: "p \<in> fst ` set d" and emp: "empty_file w p"
    show "p \<in> fst ` set loaded"
    proof (rule ccontr)
      assume "p \<notin> fst ` set loaded"
      then obtain r where "(p, r) \<in> set L" "truthy r" using keys p by auto
      then have "truthy (hash_result lb w p)" using setL by auto
      then show False using truthy_hash_result[of lb w p] emp by simp
    qed
  qed
  have c: "\<forall>pr \<in> set (find_duplicates_from_info d).
             (empty_file w (fst pr) \<longrightarrow> fst pr \<in> fst ` set loaded)
           \<and> (empty_file w (snd pr) \<longrightarrow> snd pr \<in> fst ` set loaded)"
    using b find_duplicates_members[of _ d] by blast
  have "loaded = []" if "\<not> os_path_exists w tmp"
    using assms(2) that by (simp add: load_progress_def)
  then have e: "\<not> os_path_exists w tmp \<longrightarrow>
            (\<forall>pr \<in> set (find_duplicates_from_info d).
               \<not> empty_file w (fst pr) \<and> \<not> empty_file w (snd pr))"
    using c by auto
  show ?thesis using a b c e by blast
qed

section \<open>The order of completion\<close>

lemma collect_loop_open_needs:
  assumes "collect_loop_open lb cfg tmp E d w = (Inr d', w')"
  shows "(\<forall>c \<in> set E. mergeable c) \<and> (E \<noteq> [] \<longrightarrow> save_interval cfg \<noteq> 0)
       \<and> (can_write w' tmp \<longrightarrow> can_write w tmp)"
  using assms
proof (induction E arbitrary: d w)
  case Nil
  then show ?case by simp
next
  case (Cons c E d w)
  let ?d1 = "merged_given c d"
  note step = collect_loop_open_Cons[OF Cons.prems]
  have k: "save_interval cfg \<noteq> 0" and m: "mergeable c"
    using step merge_given_mergeable[of c d ?d1] by simp_all
  show ?case
  proof (cases "save_interval cfg dvd int (length ?d1)")
    case True
    then obtain w1 where wr: "write_file tmp (json_dump lb ?d1) w = Inr w1"
      and rest: "collect_loop_open lb cfg tmp E ?d1 w1 = (Inr d', w')"
      using step by blast
    have cw: "can_write w tmp" by (rule write_file_Inr(3)[OF wr])
    from Cons.IH[OF rest] have "\<forall>c \<in> set E. mergeable c" by simp
    then show ?thesis using k m cw by simp
  next
    case False
    then have rest: "collect_loop_open lb cfg tmp E ?d1 w = (Inr d', w')"
      using step by blast
    from Cons.IH[OF rest] have "\<forall>c \<in> set E. mergeable c"
      and "can_write w' tmp \<longrightarrow> can_write w tmp" by simp_all
    then show ?thesis using k m by simp
  qed
qed

lemma collect_loop_open_success:
  assumes "E = [] \<or> save_interval cfg \<noteq> 0" and "\<forall>c \<in> set E. mergeable c"
    and "can_write w tmp"
  shows "\<exists>d' w'. collect_loop_open lb cfg tmp E d w = (Inr d', w') \<and> can_write w' tmp"
  using assms
proof (induction E arbitrary: d w)
  case Nil
  then show ?case by simp
next
  case (Cons c E d w)
  let ?d1 = "merged_given c d"
  have k: "save_interval cfg \<noteq> 0" using Cons.prems(1) by simp
  have m: "merge_given c d = Inr ?d1"
    using Cons.prems(2) by (simp add: mergeable_merge_given)
  have rest: "\<forall>c \<in> set E. mergeable c" using Cons.prems(2) by simp
  show ?case
  proof (cases "save_interval cfg dvd int (length ?d1)")
    case True
    obtain w1 where wr: "write_file tmp (json_dump lb ?d1) w = Inr w1"
      using write_file_can[OF Cons.prems(3)] by blast
    have cw1: "can_write w1 tmp" by (rule write_file_Inr(4)[OF wr])
    have "collect_loop_open lb cfg tmp (c # E) d w = collect_loop_open lb cfg tmp E ?d1 w1"
      using k m True wr by (simp add: dvd_eq_mod_eq_0)
    then show ?thesis using Cons.IH[OF _ rest cw1, of ?d1] k by simp
  next
    case False
    have "collect_loop_open lb cfg tmp (c # E) d w = collect_loop_open lb cfg tmp E ?d1 w"
      using k m False by (simp add: dvd_eq_mod_eq_0)
    then show ?thesis using Cons.IH[OF _ rest Cons.prems(3), of ?d1] k by simp
  qed
qed

lemma merged_given_map_of:
  "mergeable c \<Longrightarrow>
     map_of (merged_given c d) =
       (if truthy (future_result c) then (map_of d)(future_path c \<mapsto> given_record c)
        else map_of d)"
  by (auto simp: merged_given_def merge_given_def mergeable_def given_record_def update_conv'
      split: sum.splits)

lemma fold_merged_given_map_of:
  assumes "\<forall>c \<in> set E. c = pick (future_path c) \<and> mergeable c"
  shows "map_of (fold merged_given E d) =
           (\<lambda>q. if q \<in> future_path ` set E \<and> truthy (future_result (pick q))
                then Some (given_record (pick q)) else map_of d q)"
  using assms
proof (induction E arbitrary: d)
  case Nil
  then show ?case by simp
next
  case (Cons c E d)
  have c: "c = pick (future_path c)" and m: "mergeable c" using Cons.prems by simp_all
  have rest: "\<forall>c \<in> set E. c = pick (future_path c) \<and> mergeable c" using Cons.prems by simp
  have m1: "map_of (merged_given c d) =
       (if truthy (future_result c) then (map_of d)(future_path c \<mapsto> given_record c)
        else map_of d)"
    by (rule merged_given_map_of[OF m])
  have "map_of (fold merged_given (c # E) d) =
          (\<lambda>q. if q \<in> future_path ` set E \<and> truthy (future_result (pick q))
                then Some (given_record (pick q)) else map_of (merged_given c d) q)"
    using Cons.IH[OF rest, of "merged_given c d"] by simp
  also have "\<dots> = (\<lambda>q. if q \<in> future_path ` set (c # E) \<and> truthy (future_result (pick q))
                then Some (given_record (pick q)) else map_of d q)"
    unfolding m1 using c by (auto simp: fun_eq_iff)
  finally show ?case .
qed

text \<open>
  The closed model is the open form for the answers that the closed file system gives: a
  run of \<open>collect_loop\<close> is a run of \<open>collect_loop_open\<close> on the same futures, and
  \<open>collect_file_info\<close> returns what \<open>collect_file_info_open\<close> returns for them.
\<close>

lemma merge_result_given:
  "merge_result w p r d =
     merge_given \<lparr>future_path = p, future_result = r, size_read = os_path_getsize w p,
                  mtime_read = os_path_getmtime w p\<rparr> d"
  by (simp add: merge_result_def merge_given_def split: sum.splits)

lemma collect_loop_is_open:
  "\<exists>E. map (\<lambda>c. (future_path c, future_result c)) E = L
       \<and> collect_loop lb cfg tmp L d w = collect_loop_open lb cfg tmp E d w"
proof (induction L arbitrary: d w)
  case Nil
  show ?case by simp
next
  case (Cons x L d w)
  obtain p r where x: "x = (p, r)" by (cases x)
  define c where "c = \<lparr>future_path = p, future_result = r, size_read = os_path_getsize w p,
                  mtime_read = os_path_getmtime w p\<rparr>"
  have mg: "merge_result w p r d = merge_given c d"
    unfolding c_def by (rule merge_result_given)
  have pc: "(future_path c, future_result c) = x" by (simp add: c_def x)
  have ex: "\<exists>E. map (\<lambda>c. (future_path c, future_result c)) E = L
               \<and> collect_loop lb cfg tmp L d1 w1 = collect_loop_open lb cfg tmp E d1 w1"
    for d1 w1 by (rule Cons.IH)
  show ?case
  proof (cases "merge_given c d")
    case (Inl e)
    obtain E :: "completed list" where E: "map (\<lambda>c. (future_path c, future_result c)) E = L"
      using ex[of d w] by blast
    have "collect_loop lb cfg tmp (x # L) d w = collect_loop_open lb cfg tmp (c # E) d w"
      using Inl mg by (simp add: x)
    then show ?thesis using E pc by (intro exI[of _ "c # E"]) simp
  next
    case (Inr d1)
    show ?thesis
    proof (cases "save_interval cfg = 0")
      case True
      obtain E :: "completed list" where E: "map (\<lambda>c. (future_path c, future_result c)) E = L"
        using ex[of d w] by blast
      have "collect_loop lb cfg tmp (x # L) d w = collect_loop_open lb cfg tmp (c # E) d w"
        using Inr mg True by (simp add: x)
      then show ?thesis using E pc by (intro exI[of _ "c # E"]) simp
    next
      case k: False
      show ?thesis
      proof (cases "int (length d1) mod save_interval cfg = 0")
        case True
        show ?thesis
        proof (cases "write_file tmp (json_dump lb d1) w")
          case (Inl e)
          obtain E :: "completed list" where E: "map (\<lambda>c. (future_path c, future_result c)) E = L"
            using ex[of d w] by blast
          have "collect_loop lb cfg tmp (x # L) d w = collect_loop_open lb cfg tmp (c # E) d w"
            using Inr mg k True Inl by (simp add: x)
          then show ?thesis using E pc by (intro exI[of _ "c # E"]) simp
        next
          case wr: (Inr w1)
          obtain E :: "completed list" where E: "map (\<lambda>c. (future_path c, future_result c)) E = L"
            and run: "collect_loop lb cfg tmp L d1 w1 = collect_loop_open lb cfg tmp E d1 w1"
            using ex[of d1 w1] by blast
          have "collect_loop lb cfg tmp (x # L) d w = collect_loop_open lb cfg tmp (c # E) d w"
            using Inr mg k True wr run by (simp add: x)
          then show ?thesis using E pc by (intro exI[of _ "c # E"]) simp
        qed
      next
        case False
        obtain E :: "completed list" where E: "map (\<lambda>c. (future_path c, future_result c)) E = L"
          and run: "collect_loop lb cfg tmp L d1 w = collect_loop_open lb cfg tmp E d1 w"
          using ex[of d1 w] by blast
        have "collect_loop lb cfg tmp (x # L) d w = collect_loop_open lb cfg tmp (c # E) d w"
          using Inr mg k False run by (simp add: x)
        then show ?thesis using E pc by (intro exI[of _ "c # E"]) simp
      qed
    qed
  qed
qed


lemma write_file_observers:
  "write_file p s (w\<lparr>out := ev, hash_calls := hc\<rparr>)
     = map_sum id (\<lambda>w'. w'\<lparr>out := ev, hash_calls := hc\<rparr>) (write_file p s w)"
  by (simp add: write_file_def split: option.splits node.splits)

lemma collect_loop_open_observers:
  "collect_loop_open lb cfg tmp E d (w\<lparr>out := ev, hash_calls := hc\<rparr>)
     = map_prod id (\<lambda>w'. w'\<lparr>out := ev, hash_calls := hc\<rparr>) (collect_loop_open lb cfg tmp E d w)"
proof (induction E arbitrary: d w)
  case Nil
  show ?case by simp
next
  case (Cons c E d w)
  show ?case
    by (simp add: write_file_observers Cons.IH split: sum.splits)
qed

lemma collect_file_info_is_open:
  assumes "load_progress lb tmp w = Inr loaded"
  shows "\<exists>arrivals.
           map (\<lambda>c. (future_path c, future_result c)) (arrivals (submitted cfg w dirs loaded))
             = completion (map (\<lambda>p. (p, hash_result lb w p)) (submitted cfg w dirs loaded))
         \<and> fst (collect_file_info lb cfg completion dirs tmp w)
             = fst (collect_file_info_open lb cfg arrivals dirs tmp w)"
proof -
  define P where "P = submitted cfg w dirs loaded"
  define L where "L = completion (map (\<lambda>p. (p, hash_result lb w p)) P)"
  define ev where "ev = out w @ concat (map (hash_events lb w) P)"
  define hc where "hc = hash_calls w @ P"
  obtain E where E: "map (\<lambda>c. (future_path c, future_result c)) E = L"
    and run: "collect_loop lb cfg tmp L loaded (w\<lparr>out := ev, hash_calls := hc\<rparr>)
                = collect_loop_open lb cfg tmp E loaded (w\<lparr>out := ev, hash_calls := hc\<rparr>)"
    using collect_loop_is_open[of L lb cfg tmp loaded "w\<lparr>out := ev, hash_calls := hc\<rparr>"]
    by blast
  obtain r w2 where open_run: "collect_loop_open lb cfg tmp E loaded w = (r, w2)"
    by (cases "collect_loop_open lb cfg tmp E loaded w")
  have closed_run: "collect_loop lb cfg tmp L loaded (w\<lparr>out := ev, hash_calls := hc\<rparr>)
                      = (r, w2\<lparr>out := ev, hash_calls := hc\<rparr>)"
    unfolding run collect_loop_open_observers open_run by simp
  have c: "collect_file_info lb cfg completion dirs tmp w =
     (case collect_loop lb cfg tmp L loaded (w\<lparr>out := ev, hash_calls := hc\<rparr>) of
           (Inl e, w2) \<Rightarrow> (Inl e, w2)
         | (Inr d, w2) \<Rightarrow>
             (case write_file tmp (json_dump lb d) w2 of
                Inl e \<Rightarrow> (Inl e, w2)
              | Inr w3 \<Rightarrow> (Inr d, w3)))"
    by (simp add: collect_file_info_unfold[OF assms] Let_def submitted_def[symmetric]
        P_def[symmetric] L_def[symmetric] ev_def hc_def)
  have o: "collect_file_info_open lb cfg (\<lambda>ps. E) dirs tmp w =
     (case collect_loop_open lb cfg tmp E loaded w of
           (Inl e, w2) \<Rightarrow> (Inl e, w2)
         | (Inr d, w2) \<Rightarrow>
             (case write_file tmp (json_dump lb d) w2 of
                Inl e \<Rightarrow> (Inl e, w2)
              | Inr w3 \<Rightarrow> (Inr d, w3)))"
    using assms by (simp add: collect_file_info_open_def Let_def)
  have "fst (collect_file_info lb cfg completion dirs tmp w)
          = fst (collect_file_info_open lb cfg (\<lambda>ps. E) dirs tmp w)"
    unfolding c o closed_run open_run
    by (cases r; cases "write_file tmp (json_dump lb (projr r)) w2")
       (simp_all add: write_file_observers)
  then show ?thesis
    using E unfolding L_def P_def by (intro exI[of _ "\<lambda>ps. E"]) simp
qed

text \<open>
  Claim C7, as stated, fails when the temp file is one of the scanned files: its size and
  modification time are read when its result is merged, after the saves that happened
  before. With the same results of the workers, the record of \<open>/s/progress.json\<close> has
  size 34 when the futures complete in the order of submission and size 2 when they
  complete in the reverse order.
\<close>

theorem completion_order_changes_temp_record:
  "fst (collect_file_info example_lib example_config id [''/s''] ''/s/progress.json''
          inside_world) = Inr inside_forward
   \<and> fst (collect_file_info example_lib example_config rev [''/s''] ''/s/progress.json''
          inside_world) = Inr inside_backward
   \<and> map_of inside_forward ''/s/progress.json'' \<noteq> map_of inside_backward ''/s/progress.json''"
  by code_simp

text \<open>
  Claim C7, amended. The record of a path is built from three answers: the result of its
  worker, and the size and the modification time read when that result is merged. Take two
  orders of completion of the same futures with the same answers, no path having two
  different answers. If the run in one order returns a dictionary, the run in the other
  order returns one too, and the two are equal as maps from path to record (their orders
  of insertion may differ). Equal results of the workers alone do not suffice: size and
  time are read at the merge, and the loop itself changes them for the temp file.
\<close>

theorem completion_order_irrelevant:
  assumes "\<And>ps. mset (a1 ps) = mset (a2 ps)"
    and "\<And>ps x y. x \<in> set (a1 ps) \<Longrightarrow> y \<in> set (a1 ps) \<Longrightarrow> future_path x = future_path y
            \<Longrightarrow> x = y"
    and "fst (collect_file_info_open lb cfg a1 dirs tmp w) = Inr d1"
  shows "\<exists>d2. fst (collect_file_info_open lb cfg a2 dirs tmp w) = Inr d2
              \<and> map_of d1 = map_of d2"
proof -
  obtain loaded where load: "load_progress lb tmp w = Inr loaded"
    using assms(3) by (cases "load_progress lb tmp w") (simp_all add: collect_file_info_open_def)
  define P where "P = submitted cfg w dirs loaded"
  define E1 where "E1 = a1 P"
  define E2 where "E2 = a2 P"
  obtain w3 where run1: "collect_file_info_open lb cfg a1 dirs tmp w = (Inr d1, w3)"
    using assms(3) by (cases "collect_file_info_open lb cfg a1 dirs tmp w") simp
  obtain w2 where loop1: "collect_loop_open lb cfg tmp E1 loaded w = (Inr d1, w2)"
    and wr1: "write_file tmp (json_dump lb d1) w2 = Inr w3"
    using collect_file_info_open_returns[OF load run1] unfolding E1_def P_def by blast
  have sets: "set E1 = set E2"
    unfolding E1_def E2_def using assms(1)[of P] by (rule mset_eq_setD)
  have empty: "E2 = [] \<longleftrightarrow> E1 = []"
    using assms(1)[of P] unfolding E1_def E2_def by (metis mset_zero_iff)
  have need: "\<forall>c \<in> set E1. mergeable c" "E1 \<noteq> [] \<longrightarrow> save_interval cfg \<noteq> 0"
    "can_write w2 tmp \<longrightarrow> can_write w tmp"
    using collect_loop_open_needs[OF loop1] by simp_all
  have cw: "can_write w tmp" using need(3) write_file_Inr(3)[OF wr1] by simp
  have k2: "E2 = [] \<or> save_interval cfg \<noteq> 0" using need(2) empty by blast
  have m2: "\<forall>c \<in> set E2. mergeable c" using need(1) sets by simp
  obtain d2 w2' where loop2: "collect_loop_open lb cfg tmp E2 loaded w = (Inr d2, w2')"
    and cw2: "can_write w2' tmp"
    using collect_loop_open_success[OF k2 m2 cw, of lb loaded] by blast
  obtain w3' where wr2: "write_file tmp (json_dump lb d2) w2' = Inr w3'"
    using write_file_can[OF cw2] by blast
  have run2: "fst (collect_file_info_open lb cfg a2 dirs tmp w) = Inr d2"
    using load loop2 wr2
    by (simp add: collect_file_info_open_def Let_def submitted_def[symmetric]
        P_def[symmetric] E2_def[symmetric])
  define pick where "pick q = (THE c. c \<in> set E1 \<and> future_path c = q)" for q
  have pk: "c = pick (future_path c)" if c: "c \<in> set E1" for c
  proof -
    have "(THE c'. c' \<in> set E1 \<and> future_path c' = future_path c) = c"
    proof (rule the_equality)
      show "c \<in> set E1 \<and> future_path c = future_path c" using c by simp
    next
      fix c' assume "c' \<in> set E1 \<and> future_path c' = future_path c"
      then show "c' = c" using assms(2)[of c' P c] c unfolding E1_def by simp
    qed
    then show ?thesis by (simp add: pick_def)
  qed
  have h1: "\<forall>c \<in> set E1. c = pick (future_path c) \<and> mergeable c" using pk need(1) by simp
  have h2: "\<forall>c \<in> set E2. c = pick (future_path c) \<and> mergeable c" using h1 sets by simp
  have e1: "d1 = fold merged_given E1 loaded"
    using collect_loop_open_returns[OF loop1] by (simp add: working_mapping_def)
  have e2: "d2 = fold merged_given E2 loaded"
    using collect_loop_open_returns[OF loop2] by (simp add: working_mapping_def)
  have "map_of d1 = map_of d2"
    unfolding e1 e2 fold_merged_given_map_of[OF h1] fold_merged_given_map_of[OF h2] sets
    by (rule refl)
  then show ?thesis using run2 by blast
qed

section \<open>The collection on the example directory\<close>

lemma scan_backward:
  "fst (collect_file_info example_lib example_config rev [''/s''] ''/tmp/progress.json''
          scan_world) = Inr (rev scan_result)"
  by code_simp

lemma scan_load: "load_progress example_lib ''/tmp/progress.json'' scan_world = Inr []"
  by (simp add: load_progress_def scan_world_def os_path_exists_def)

lemma scan_open_forward:
  "fst (collect_file_info_open example_lib example_config scan_arrivals [''/s'']
          ''/tmp/progress.json'' scan_world) = Inr scan_result"
  by code_simp

lemma scan_open_backward:
  "fst (collect_file_info_open example_lib example_config (\<lambda>ps. rev (scan_arrivals ps)) [''/s'']
          ''/tmp/progress.json'' scan_world) = Inr (rev scan_result)"
  by code_simp


lemma scan_arrivals_one:
  "x \<in> set (scan_arrivals ps) \<Longrightarrow> y \<in> set (scan_arrivals ps)
     \<Longrightarrow> future_path x = future_path y \<Longrightarrow> x = y"
  by (auto simp: scan_arrivals_def)


theorem completion_order_irrelevant_witness:
  "fst (collect_file_info_open example_lib example_config scan_arrivals [''/s'']
          ''/tmp/progress.json'' scan_world) = Inr scan_result
   \<and> fst (collect_file_info_open example_lib example_config (\<lambda>ps. rev (scan_arrivals ps))
             [''/s''] ''/tmp/progress.json'' scan_world) = Inr (rev scan_result)
   \<and> map_of scan_result = map_of (rev scan_result)"
proof -
  have "\<exists>d2. fst (collect_file_info_open example_lib example_config
                      (\<lambda>ps. rev (scan_arrivals ps)) [''/s''] ''/tmp/progress.json''
                      scan_world) = Inr d2
              \<and> map_of scan_result = map_of d2"
  proof (rule completion_order_irrelevant[of scan_arrivals "\<lambda>ps. rev (scan_arrivals ps)"])
    show "mset (scan_arrivals ps) = mset (rev (scan_arrivals ps))" for ps by simp
    show "x = y" if "x \<in> set (scan_arrivals ps)" "y \<in> set (scan_arrivals ps)"
      "future_path x = future_path y" for ps x y
      using that by (rule scan_arrivals_one)
    show "fst (collect_file_info_open example_lib example_config scan_arrivals [''/s'']
                 ''/tmp/progress.json'' scan_world) = Inr scan_result"
      by (rule scan_open_forward)
  qed
  then show ?thesis using scan_open_forward scan_open_backward by simp
qed

theorem empty_files_never_added_witness:
  "load_progress example_lib ''/tmp/progress.json'' scan_world = Inr []
   \<and> fst (collect_file_info example_lib example_config rev [''/s''] ''/tmp/progress.json''
             scan_world) = Inr (rev scan_result)
   \<and> \<not> os_path_exists scan_world ''/tmp/progress.json''
   \<and> empty_file scan_world ''/s/c.txt'' \<and> empty_file scan_world ''/s/d.txt''
   \<and> fst (file_hash example_lib ''/s/c.txt'' scan_world) = None
   \<and> ''/s/c.txt'' \<notin> fst ` set (rev scan_result)
   \<and> find_duplicates_from_info (rev scan_result) = [(''/s/a.txt'', ''/s/b.txt'')]
   \<and> \<not> empty_file scan_world ''/s/a.txt'' \<and> \<not> empty_file scan_world ''/s/b.txt''"
proof -
  have perm: "mset (rev fs) = mset fs" for fs :: "(path \<times> string option) list" by simp
  have ne: "\<not> os_path_exists scan_world ''/tmp/progress.json''"
    by (simp add: os_path_exists_def scan_world_def)
  have e1: "empty_file scan_world ''/s/c.txt''" and e2: "empty_file scan_world ''/s/d.txt''"
    by (simp_all add: empty_file_def scan_world_def example_fdata_def)
  note T = empty_files_never_added[OF perm scan_load scan_backward]
  have h: "fst (file_hash example_lib ''/s/c.txt'' scan_world) = None"
    using T[THEN conjunct1] e1 by simp
  have k: "''/s/c.txt'' \<notin> fst ` set (rev scan_result)"
    using T[THEN conjunct2, THEN conjunct1] e1 by auto
  have p: "\<forall>pr \<in> set (find_duplicates_from_info (rev scan_result)).
          \<not> empty_file scan_world (fst pr) \<and> \<not> empty_file scan_world (snd pr)"
    using T[THEN conjunct2, THEN conjunct2, THEN conjunct2] ne by simp
  have dups: "find_duplicates_from_info (rev scan_result) = [(''/s/a.txt'', ''/s/b.txt'')]"
    by (simp add: find_duplicates_from_info_def scan_result_def)
  have q: "\<not> empty_file scan_world ''/s/a.txt'' \<and> \<not> empty_file scan_world ''/s/b.txt''"
    using p unfolding dups by simp
  show ?thesis
    using scan_load scan_backward ne e1 e2 h k dups q by simp
qed

end
